theory Spec2Isabelle
  imports Main
begin

section \<open>Data model (transaction.d.ts)\<close>

text \<open>
  \<open>MessageType\<close> is a numeric TypeScript enum: at run time a message's \<open>type\<close> is a
  number, and the five members are the numbers 0 to 4. Any other number is a kind
  the generator does not recognise.
\<close>

type_synonym MessageType = int

abbreviation (input) Value :: MessageType where "Value \<equiv> 0"
abbreviation (input) Call :: MessageType where "Call \<equiv> 1"
abbreviation (input) Create :: MessageType where "Create \<equiv> 2"
abbreviation (input) Selfdestruct :: MessageType where "Selfdestruct \<equiv> 3"
abbreviation (input) Delegatecall :: MessageType where "Delegatecall \<equiv> 4"

text \<open>\<open>Param\<close>: the optional \<open>value\<close> is an option; \<open>components\<close> is never read.\<close>

record Param =
  name_p :: string
  type_p :: string
  value_p :: "string option"

text \<open>
  \<open>Payload\<close>: \<open>genParams\<close> guards against an absent \<open>inputs\<close> array, so the
  field is an option here.
\<close>

record Payload =
  funcName :: string
  funcSelector :: string
  inputs :: "Param list option"
  outputs :: "Param list"

record DelegatedDetails =
  id_d :: int
  last_d :: bool

text \<open>
  \<open>Message\<close>. The amount \<open>value\<close> is a BigNumber holding a number of wei, an
  integer. Field names that are Isabelle keywords or library constants carry the
  suffix \<open>_m\<close>.
\<close>

record Message =
  id_m :: int
  type_m :: MessageType
  from_m :: string
  to_m :: string
  parentId :: "int option"
  delegatedCall :: "DelegatedDetails option"
  value_m :: int
  payload :: "Payload option"
  gasUsed :: int
  gasLimit :: int
  callDepth :: int
  status :: bool
  error_m :: "string option"

record PumlGenerationOptions =
  gas :: "bool option"
  params :: "bool option"
  network :: "string option"

text \<open>The only exception the generator can raise: a method call on \<open>undefined\<close>.\<close>

datatype exn = TypeError string

section \<open>Output lines\<close>

text \<open>
  \<open>genMessages\<close> builds its result by appending whole lines to \<open>plantUml\<close>. Each
  append is kept as one value of \<open>line\<close>, and \<open>render\<close> gives the text appended.
  \<open>Return\<close> (from \<open>genEndLifeline\<close>) and \<open>DelegateReturn\<close> (the return from a
  delegated lifeline) render to the same text; the constructor records which
  statement of the source appended the line.
\<close>

datatype line =
    CallArrow string string string string string
  | Activate string
  | ActivateDelegate string
  | ValueArrow string string string string string
  | Return
  | Destroy string
  | Note string string
  | DelegateReturn
  | SelfdestructReturn

definition DelegateLifelineColor :: string where
  "DelegateLifelineColor = ''#809ECB''"

definition DelegateMessageColor :: string where
  "DelegateMessageColor = ''#3471CD''"

fun render :: "line \<Rightarrow> string" where
  "render (CallArrow f a t txt g) = f @ '' '' @ a @ '' '' @ t @ '': '' @ txt @ g @ [CHR 0x0A]"
| "render (Activate p) = ''activate '' @ p @ [CHR 0x0A]"
| "render (ActivateDelegate p) = ''activate '' @ p @ '' '' @ DelegateLifelineColor @ [CHR 0x0A]"
| "render (ValueArrow f a t eth g) = f @ '' '' @ a @ '' '' @ t @ '': '' @ eth @ '' ETH'' @ g @ [CHR 0x0A]"
| "render Return = ''return'' @ [CHR 0x0A]"
| "render (Destroy p) = ''destroy '' @ p @ [CHR 0x0A]"
| "render (Note p e) = ''note right of '' @ p @ '': '' @ e @ [CHR 0x0A]"
| "render DelegateReturn = ''return'' @ [CHR 0x0A]"
| "render SelfdestructReturn = ''return selfdestruct'' @ [CHR 0x0A]"

section \<open>Formatting helpers\<close>

text \<open>\<open>s.substr(start, len)\<close>; a negative \<open>start\<close> counts from the end, not before 0.\<close>

definition substr :: "string \<Rightarrow> int \<Rightarrow> nat \<Rightarrow> string" where
  "substr s start len =
     (let b = (if start < 0 then nat (max 0 (int (length s) + start)) else nat start)
      in take len (drop b s))"

definition participantId :: "string \<Rightarrow> string" where
  "participantId address = substr address 2 4 @ substr address (- 4) 4"

definition shortAddress :: "string \<Rightarrow> string" where
  "shortAddress address = substr address 0 6 @ ''..'' @ substr address (- 4) 4"

text \<open>Decimal text of a bigint, as a template literal prints it.\<close>

definition digit_char :: "nat \<Rightarrow> char" where
  "digit_char d = ''0123456789'' ! d"

fun decimalText :: "nat \<Rightarrow> string" where
  "decimalText n = (if 10 \<le> n then decimalText (n div 10) else []) @ [digit_char (n mod 10)]"

declare decimalText.simps [simp del]

definition decimalTextInt :: "int \<Rightarrow> string" where
  "decimalTextInt i = (if i < 0 then ''-'' @ decimalText (nat (- i)) else decimalText (nat i))"

text \<open>
  \<open>genArrow\<close>: \<open>isNaN(message.delegatedCall?.id)\<close> is true exactly when the message
  has no \<open>delegatedCall\<close> (\<open>id\<close> is an integer when it is there).
\<close>

definition genArrow :: "Message \<Rightarrow> string" where
  "genArrow message =
     (let delegateColor = (case delegatedCall message of None \<Rightarrow> ''''
                           | Some d \<Rightarrow> ''['' @ DelegateMessageColor @ '']'')
      in if type_m message = Call then ''-'' @ delegateColor @ ''>''
         else if type_m message = Value then ''-'' @ delegateColor @ ''>>''
         else if type_m message = Create then ''-'' @ delegateColor @ ''>o''
         else if type_m message = Selfdestruct then ''-'' @ delegateColor @ [CHR 0x5C]
         else ''-'' @ delegateColor @ ''>'')"

text \<open>
  \<open>genParams\<close>: one \<open>name: value, \<close> per parameter, the last two characters cut off.
  \<open>shortAddress(param.value)\<close> on a parameter of type \<open>address\<close> without a value calls
  \<open>substr\<close> on \<open>undefined\<close> and raises; elsewhere an absent value prints as
  \<open>undefined\<close>.
\<close>

fun genParamsLoop :: "Param list \<Rightarrow> string \<Rightarrow> exn + string" where
  "genParamsLoop [] plantUml = Inr plantUml"
| "genParamsLoop (param # rest) plantUml =
     (if type_p param = ''address'' then
        (case value_p param of
           None \<Rightarrow> Inl (TypeError ''Cannot read property substr of undefined'')
         | Some v \<Rightarrow> genParamsLoop rest (plantUml @ name_p param @ '': '' @ shortAddress v @ '', ''))
      else
        genParamsLoop rest
          (plantUml @ name_p param @ '': ''
             @ (case value_p param of None \<Rightarrow> ''undefined'' | Some v \<Rightarrow> v) @ '', ''))"

definition genParams :: "Param list option \<Rightarrow> exn + string" where
  "genParams ps =
     (case ps of
        None \<Rightarrow> Inr ''''
      | Some l \<Rightarrow>
          (case genParamsLoop l '''' of
             Inl e \<Rightarrow> Inl e
           | Inr plantUml \<Rightarrow> Inr (take (length plantUml - 2) plantUml)))"

text \<open>\<open>genFunctionText\<close>; the parameter \<open>params\<close> defaults to \<open>false\<close> when absent.\<close>

definition genFunctionText :: "Message \<Rightarrow> bool option \<Rightarrow> exn + string" where
  "genFunctionText message ps =
     (case payload message of
        None \<Rightarrow> Inr ''''
      | Some pl \<Rightarrow>
          if type_m message = Create then Inr ''create''
          else if funcName pl \<noteq> '''' then
            (if (case ps of None \<Rightarrow> False | Some b \<Rightarrow> b) then
               (case genParams (inputs pl) of
                  Inl e \<Rightarrow> Inl e
                | Inr t \<Rightarrow> Inr (funcName pl @ ''('' @ t @ '')''))
             else Inr (funcName pl))
          else Inr (funcSelector pl))"

definition genGasUsage :: "Message \<Rightarrow> bool option \<Rightarrow> string" where
  "genGasUsage message gasUsage =
     (if \<not> (case gasUsage of None \<Rightarrow> False | Some b \<Rightarrow> b) then ''''
      else '' ['' @ decimalTextInt (gasUsed message) @ '']'')"

text \<open>
  \<open>genEndLifeline\<close>: the close of one frame. \<open>message.error\<close> is tested for
  truthiness, so an absent error and the empty string both give no note.
\<close>

definition genEndLifeline :: "Message \<Rightarrow> line list" where
  "genEndLifeline message =
     (if status message then [Return] else [Destroy (participantId (to_m message))])
     @ (case error_m message of
          None \<Rightarrow> []
        | Some e \<Rightarrow> if e = '''' then [] else [Note (participantId (to_m message)) e])"

section \<open>The amount of a value transfer\<close>

text \<open>
  Modelled from the spec: \<open>BigNumber\<close> (the bignumber.js dependency) is not among the
  sources. The spec's words are "divide by 10^18 and format to 2 decimal places".
  A BigNumber is a decimal: the pair \<open>(c, e)\<close> stands for \<open>c / 10 ^ e\<close>. Division
  of an integer by a power of ten is exact, and \<open>toFormat dp\<close> rounds to \<open>dp\<close>
  decimals (half away from zero, the library's default), groups the integer part
  in threes with commas (its default format) and keeps the sign of the amount.
\<close>

type_synonym BigNumber = "int \<times> nat"

definition bn_div_pow10 :: "int \<Rightarrow> nat \<Rightarrow> BigNumber" where
  "bn_div_pow10 c e = (c, e)"

fun groupRev :: "string \<Rightarrow> string" where
  "groupRev (a # b # c # d # rest) = a # b # c # CHR '','' # groupRev (d # rest)"
| "groupRev ds = ds"

definition roundHalfUp :: "nat \<Rightarrow> BigNumber \<Rightarrow> nat" where
  "roundHalfUp dp x = (2 * nat \<bar>fst x\<bar> * 10 ^ dp + 10 ^ snd x) div (2 * 10 ^ snd x)"

definition toFormat :: "nat \<Rightarrow> BigNumber \<Rightarrow> string" where
  "toFormat dp x =
     (let q = roundHalfUp dp x;
          intPart = decimalText (q div 10 ^ dp);
          fractionPart = decimalText (q mod 10 ^ dp)
      in (if fst x < 0 then ''-'' else '''')
         @ rev (groupRev (rev intPart))
         @ (if dp = 0 then ''''
            else ''.'' @ replicate (dp - length fractionPart) (CHR ''0'') @ fractionPart))"

definition ethersText :: "Message \<Rightarrow> string" where
  "ethersText message = toFormat 2 (bn_div_pow10 (value_m message) 18)"

section \<open>genMessages\<close>

text \<open>
  The messages are JavaScript objects: \<open>previousMessage\<close> and the entries of
  \<open>contractCallStack\<close> are references to elements of the input array, and
  \<open>previousMessage.to = message.from\<close> writes through such a reference. The array
  is the \<open>store\<close>; a reference is an index into it (the elements of the input
  array are taken to be distinct objects). The top of \<open>contractCallStack\<close> is the
  end of the list, as \<open>push\<close> and \<open>pop\<close> have it. \<open>debug\<close> only logs and is left
  out.
\<close>

record state =
  store :: "Message list"
  contractCallStack :: "nat list"
  previousMessage :: "nat option"
  plantUml :: "line list"

text \<open>
  The inner loop over \<open>reservedCallStack\<close>, the reversed copy of the stack: close
  the frame, pop the stack, and stop when the frame's \<open>from\<close> is the message's.
\<close>

fun unwind :: "Message list \<Rightarrow> string \<Rightarrow> nat list \<Rightarrow> nat list \<Rightarrow> nat list \<times> line list" where
  "unwind st f [] stk = (stk, [])"
| "unwind st f (callStack # rest) stk =
     (if f = from_m (st ! callStack) then (butlast stk, genEndLifeline (st ! callStack))
      else (case unwind st f rest (butlast stk) of
              (stk', ls) \<Rightarrow> (stk', genEndLifeline (st ! callStack) @ ls)))"

text \<open>
  The body of the \<open>for\<close> loop in three parts. First the return from the lifelines
  processing has left (the \<open>if\<close> on \<open>previousMessage\<close>, \<open>message.from\<close> and
  \<open>previousMessage.type\<close>): it gives the stack and the lines appended.
\<close>

definition returnDetection ::
  "Message list \<Rightarrow> nat list \<Rightarrow> nat option \<Rightarrow> Message \<Rightarrow> nat list \<times> line list" where
  "returnDetection st stk prev message =
     (case prev of
        None \<Rightarrow> (stk, [])
      | Some p \<Rightarrow>
          if from_m message \<noteq> to_m (st ! p) \<and> type_m (st ! p) \<noteq> Delegatecall
          then unwind st (from_m message) (rev stk) stk
          else (stk, []))"

text \<open>Second, the return from the delegated lifeline (\<open>previousMessage?.delegatedCall?.last\<close>).\<close>

definition delegateCloseout :: "Message list \<Rightarrow> nat option \<Rightarrow> line list" where
  "delegateCloseout st prev =
     (case prev of
        None \<Rightarrow> []
      | Some p \<Rightarrow>
          (case delegatedCall (st ! p) of
             None \<Rightarrow> []
           | Some d \<Rightarrow> if last_d d then [DelegateReturn] else []))"

text \<open>
  Third, the dispatch on \<open>message.type\<close>. \<open>step\<close> is one iteration of the loop,
  on the message at index \<open>i\<close>; an exception raised while the call arrow is built
  ends it.
\<close>

definition step :: "PumlGenerationOptions \<Rightarrow> state \<Rightarrow> nat \<Rightarrow> exn + state" where
  "step options s i =
     (let message = store s ! i;
          walk = returnDetection (store s) (contractCallStack s) (previousMessage s) message;
          stk = fst walk;
          out = plantUml s @ snd walk @ delegateCloseout (store s) (previousMessage s)
      in if type_m message = Call \<or> type_m message = Create \<or> type_m message = Delegatecall
         then
           (case genFunctionText message (params options) of
              Inl e \<Rightarrow> Inl e
            | Inr txt \<Rightarrow>
                (let arrow = CallArrow (participantId (from_m message)) (genArrow message)
                               (participantId (to_m message)) txt
                               (genGasUsage message (gas options))
                 in if type_m message = Delegatecall
                    then Inr (s\<lparr>contractCallStack := stk, previousMessage := Some i,
                                plantUml := out @ [arrow, ActivateDelegate (participantId (to_m message))]\<rparr>)
                    else Inr (s\<lparr>contractCallStack := stk @ [i], previousMessage := Some i,
                                plantUml := out @ [arrow, Activate (participantId (to_m message))]\<rparr>)))
         else if type_m message = Value
         then Inr (s\<lparr>store := (case previousMessage s of
                                  None \<Rightarrow> store s
                                | Some p \<Rightarrow> (store s)[p := (store s ! p)\<lparr>to_m := from_m message\<rparr>]),
                      contractCallStack := stk,
                      plantUml := out @ [ValueArrow (participantId (from_m message)) (genArrow message)
                                           (participantId (to_m message)) (ethersText message)
                                           (genGasUsage message (gas options))]\<rparr>)
         else if type_m message = Selfdestruct
         then Inr (s\<lparr>contractCallStack := butlast stk, previousMessage := Some i,
                      plantUml := out @ [SelfdestructReturn]\<rparr>)
         else Inr (s\<lparr>contractCallStack := stk, previousMessage := Some i, plantUml := out\<rparr>))"

fun loop :: "PumlGenerationOptions \<Rightarrow> state \<Rightarrow> nat list \<Rightarrow> exn + state" where
  "loop options s [] = Inr s"
| "loop options s (i # rest) =
     (case step options s i of Inl e \<Rightarrow> Inl e | Inr s' \<Rightarrow> loop options s' rest)"

definition init :: "Message list \<Rightarrow> state" where
  "init messages =
     \<lparr>store = messages, contractCallStack = [], previousMessage = None, plantUml = []\<rparr>"

text \<open>The state when the \<open>for\<close> loop is over.\<close>

definition run :: "Message list \<Rightarrow> PumlGenerationOptions \<Rightarrow> exn + state" where
  "run messages options = loop options (init messages) [0..<length messages]"

text \<open>\<open>contractCallStack.reverse().forEach(...)\<close>: the frames left, closed from the top.\<close>

definition drain :: "state \<Rightarrow> line list" where
  "drain s = concat (map (\<lambda>callStack. genEndLifeline (store s ! callStack)) (rev (contractCallStack s)))"

text \<open>
  The lines appended by the whole of \<open>genMessages\<close>, and its result: the empty text
  for an empty input, otherwise a newline followed by the text of the lines.
\<close>

definition genLines :: "Message list \<Rightarrow> PumlGenerationOptions \<Rightarrow> exn + line list" where
  "genLines messages options =
     (case run messages options of Inl e \<Rightarrow> Inl e | Inr s \<Rightarrow> Inr (plantUml s @ drain s))"

definition genMessages :: "Message list \<Rightarrow> PumlGenerationOptions \<Rightarrow> exn + string" where
  "genMessages messages options =
     (if messages = [] then Inr ''''
      else (case genLines messages options of
              Inl e \<Rightarrow> Inl e
            | Inr ls \<Rightarrow> Inr ([CHR 0x0A] @ concat (map render ls))))"

section \<open>Notions used by the properties\<close>

text \<open>
  The frames one return-detection walk closes, in the order it closes them: the
  frames from the top of the stack down to, and including, the first whose
  \<open>from\<close> is \<open>f\<close>; all of them when there is none.
\<close>

definition closedFrames :: "Message list \<Rightarrow> string \<Rightarrow> nat list \<Rightarrow> nat list" where
  "closedFrames st f stk =
     take (Suc (length (takeWhile (\<lambda>c. from_m (st ! c) \<noteq> f) (rev stk)))) (rev stk)"


fun isFrameClose :: "line \<Rightarrow> bool" where
  "isFrameClose Return = True"
| "isFrameClose (Destroy p) = True"
| "isFrameClose l = False"

fun isClose :: "line \<Rightarrow> bool" where
  "isClose Return = True"
| "isClose (Destroy p) = True"
| "isClose DelegateReturn = True"
| "isClose SelfdestructReturn = True"
| "isClose l = False"

fun isValueArrow :: "line \<Rightarrow> bool" where
  "isValueArrow (ValueArrow f a t e g) = True"
| "isValueArrow l = False"

text \<open>\<open>message.delegatedCall?.last\<close>\<close>

definition isLast :: "Message \<Rightarrow> bool" where
  "isLast message = (case delegatedCall message of None \<Rightarrow> False | Some d \<Rightarrow> last_d d)"

text \<open>Example messages.\<close>

definition exampleMessage ::
  "MessageType \<Rightarrow> string \<Rightarrow> string \<Rightarrow> bool \<Rightarrow> string option \<Rightarrow> DelegatedDetails option \<Rightarrow> Message" where
  "exampleMessage t f x ok er dc =
     \<lparr>id_m = 0, type_m = t, from_m = f, to_m = x, parentId = None, delegatedCall = dc,
      value_m = 10 ^ 18, payload = None, gasUsed = 21000, gasLimit = 50000, callDepth = 0,
      status = ok, error_m = er\<rparr>"

definition noOptions :: PumlGenerationOptions where
  "noOptions = \<lparr>gas = None, params = None, network = None\<rparr>"

definition addrA :: string where "addrA = ''0xAAAAaaaaAAAAaaaa''"
definition addrB :: string where "addrB = ''0xBBBBbbbbBBBBbbbb''"
definition addrC :: string where "addrC = ''0xCCCCccccCCCCcccc''"
definition addrD :: string where "addrD = ''0xDDDDddddDDDDdddd''"

definition c10_messages :: "Message list" where
  "c10_messages = [exampleMessage Selfdestruct addrA addrB True None None,
                   exampleMessage Call addrA addrC True None None]"

definition c7_failed :: Message where
  "c7_failed = exampleMessage Call addrA addrB False (Some ''revert'') None"

definition c7_empty_error :: Message where
  "c7_empty_error = exampleMessage Call addrA addrB False (Some '''') None"

definition c8_messages :: "Message list" where
  "c8_messages = [exampleMessage 7 addrA addrB True None None,
                  exampleMessage Call addrB addrC True None None]"

definition c9_messages :: "Message list" where
  "c9_messages = [exampleMessage Value addrC addrA True None None]"

text \<open>The condition under which the return-detection walk runs for the message at \<open>i\<close>.\<close>

definition walkFires :: "state \<Rightarrow> nat \<Rightarrow> bool" where
  "walkFires s i =
     (case previousMessage s of
        None \<Rightarrow> False
      | Some p \<Rightarrow> from_m (store s ! i) \<noteq> to_m (store s ! p) \<and> type_m (store s ! p) \<noteq> Delegatecall)"

definition c1_messages :: "Message list" where
  "c1_messages = [exampleMessage Call addrA addrB True None None,
                  exampleMessage Call addrB addrC False (Some ''revert'') None,
                  exampleMessage Call addrC addrD True None None,
                  exampleMessage Call addrB addrD True None None]"

definition c1_state :: state where
  "c1_state =
     \<lparr>store = c1_messages, contractCallStack = [0, 1, 2], previousMessage = Some 2,
      plantUml = [CallArrow ''AAAAaaaa'' ''->'' ''BBBBbbbb'' '''' '''', Activate ''BBBBbbbb'',
                  CallArrow ''BBBBbbbb'' ''->'' ''CCCCcccc'' '''' '''', Activate ''CCCCcccc'',
                  CallArrow ''CCCCcccc'' ''->'' ''DDDDdddd'' '''' '''', Activate ''DDDDdddd'']\<rparr>"

definition c1_state' :: state where
  "c1_state' =
     \<lparr>store = c1_messages, contractCallStack = [0, 3], previousMessage = Some 3,
      plantUml = plantUml c1_state
        @ [Return, Destroy ''CCCCcccc'', Note ''CCCCcccc'' ''revert'',
           CallArrow ''BBBBbbbb'' ''->'' ''DDDDdddd'' '''' '''', Activate ''DDDDdddd'']\<rparr>"

text \<open>
  What holds of the state before the iteration for index \<open>i\<close>, on the input
  \<open>messages\<close>. The store has the length of the input, and its elements are the
  input's except for their \<open>to\<close> (\<open>sameButTo\<close>); the messages not yet visited and
  the \<open>Value\<close> messages are the input's.
\<close>

definition sameButTo :: "Message \<Rightarrow> Message \<Rightarrow> bool" where
  "sameButTo a b = (a\<lparr>to_m := to_m b\<rparr> = b)"

definition storeShape :: "Message list \<Rightarrow> nat \<Rightarrow> state \<Rightarrow> bool" where
  "storeShape messages i s =
     (length (store s) = length messages
      \<and> (\<forall>j < length messages. sameButTo (messages ! j) (store s ! j))
      \<and> (\<forall>j < length messages. i \<le> j \<or> type_m (messages ! j) = Value \<longrightarrow> store s ! j = messages ! j))"

text \<open>
  The references: the stack holds indices below \<open>i\<close> in increasing order; the
  previous message, when there is one, is below \<open>i\<close>, is no \<open>Value\<close> message, and
  can only be on the stack as its top. Without a previous message the stack is empty.
\<close>

definition refsOk :: "Message list \<Rightarrow> nat \<Rightarrow> state \<Rightarrow> bool" where
  "refsOk messages i s =
     ((\<forall>c \<in> set (contractCallStack s). c < i)
      \<and> sorted_wrt (<) (contractCallStack s)
      \<and> (case previousMessage s of
            None \<Rightarrow> contractCallStack s = []
          | Some p \<Rightarrow> p < i \<and> type_m (messages ! p) \<noteq> Value
                     \<and> (p \<in> set (contractCallStack s) \<longrightarrow> last (contractCallStack s) = p)))"

text \<open>The frames on the stack are \<open>Call\<close> or \<open>Create\<close> messages, as they were in the input.\<close>

definition framesIntact :: "Message list \<Rightarrow> state \<Rightarrow> bool" where
  "framesIntact messages s =
     (\<forall>c \<in> set (contractCallStack s).
        store s ! c = messages ! c
        \<and> (type_m (messages ! c) = Call \<or> type_m (messages ! c) = Create))"

definition loopInv :: "Message list \<Rightarrow> nat \<Rightarrow> state \<Rightarrow> bool" where
  "loopInv messages i s = (storeShape messages i s \<and> refsOk messages i s \<and> framesIntact messages s)"

text \<open>
  The last message before index \<open>n\<close> that is no \<open>Value\<close> message, if there is one.
\<close>

fun lastNonValue :: "Message list \<Rightarrow> nat \<Rightarrow> nat option" where
  "lastNonValue messages 0 = None"
| "lastNonValue messages (Suc n) =
     (if type_m (messages ! n) \<noteq> Value then Some n else lastNonValue messages n)"

text \<open>
  How far the loop gets: the number of iterations it completes and the state it has
  reached then, which is the state when the loop is over or when an iteration
  raises. An iteration that raises does so while the call arrow is built, before
  any assignment to the input. \<open>inputAfter\<close> is the input array as the caller finds
  it once \<open>genMessages\<close> has returned or raised.
\<close>

fun progress :: "PumlGenerationOptions \<Rightarrow> state \<Rightarrow> nat list \<Rightarrow> nat \<times> state" where
  "progress options s [] = (0, s)"
| "progress options s (i # rest) =
     (case step options s i of
        Inl e \<Rightarrow> (0, s)
      | Inr s' \<Rightarrow> (case progress options s' rest of (n, t) \<Rightarrow> (Suc n, t)))"

definition inputAfter :: "Message list \<Rightarrow> PumlGenerationOptions \<Rightarrow> Message list" where
  "inputAfter messages options =
     store (snd (progress options (init messages) [0..<length messages]))"

text \<open>
  What the first \<open>b\<close> iterations have written. The previous message is the last
  message before \<open>b\<close> that is no \<open>Value\<close> message. A message \<open>j\<close> that is no \<open>Value\<close>
  message and is followed by \<open>Value\<close> messages up to \<open>k\<close>, the last of them before
  \<open>b\<close>, has the \<open>from\<close> of \<open>k\<close> as its \<open>to\<close>. A \<open>Value\<close> message, and a message not
  followed by a \<open>Value\<close> message before \<open>b\<close>, is the input's.
\<close>

definition written :: "Message list \<Rightarrow> nat \<Rightarrow> state \<Rightarrow> bool" where
  "written messages b t =
     (previousMessage t = lastNonValue messages b
      \<and> (\<forall>j < length messages. \<forall>k < b.
            j < k \<and> type_m (messages ! j) \<noteq> Value
            \<and> (\<forall>l \<le> k. j < l \<longrightarrow> type_m (messages ! l) = Value)
            \<and> (Suc k < b \<longrightarrow> type_m (messages ! Suc k) \<noteq> Value)
            \<longrightarrow> to_m (store t ! j) = from_m (messages ! k))
      \<and> (\<forall>j < length messages.
            type_m (messages ! j) = Value \<or> b \<le> Suc j \<or> type_m (messages ! Suc j) \<noteq> Value
            \<longrightarrow> store t ! j = messages ! j))"

definition c5_params :: PumlGenerationOptions where
  "c5_params = \<lparr>gas = None, params = Some True, network = None\<rparr>"

definition c5_raising :: "Message list" where
  "c5_raising =
     [exampleMessage Call addrA addrB True None None,
      exampleMessage Value addrA addrC True None None,
      (exampleMessage Call addrA addrD True None None)
        \<lparr>payload := Some \<lparr>funcName = ''transfer'', funcSelector = ''0xa9059cbb'',
                           inputs = Some [\<lparr>name_p = ''recipient'', type_p = ''address'',
                                           value_p = None\<rparr>],
                           outputs = []\<rparr>\<rparr>]"

definition c5_raised :: state where
  "c5_raised =
     \<lparr>store = c5_raising[0 := exampleMessage Call addrA addrA True None None],
      contractCallStack = [], previousMessage = Some 0,
      plantUml = [CallArrow ''AAAAaaaa'' ''->'' ''BBBBbbbb'' '''' '''', Activate ''BBBBbbbb'',
                  Return, ValueArrow ''AAAAaaaa'' ''->>'' ''CCCCcccc'' ''1.00'' '''']\<rparr>"

definition c5_messages :: "Message list" where
  "c5_messages = [exampleMessage Call addrA addrB True None None,
                  exampleMessage Value addrA addrC True None None]"

definition c5_final :: state where
  "c5_final =
     \<lparr>store = [exampleMessage Call addrA addrA True None None,
               exampleMessage Value addrA addrC True None None],
      contractCallStack = [], previousMessage = Some 0,
      plantUml = [CallArrow ''AAAAaaaa'' ''->'' ''BBBBbbbb'' '''' '''', Activate ''BBBBbbbb'',
                  Return, ValueArrow ''AAAAaaaa'' ''->>'' ''CCCCcccc'' ''1.00'' '''']\<rparr>"

text \<open>Activations that come with a push, and returns from a delegated lifeline.\<close>

fun isFrameActivation :: "line \<Rightarrow> bool" where
  "isFrameActivation (Activate p) = True"
| "isFrameActivation l = False"

fun isDelegateReturn :: "line \<Rightarrow> bool" where
  "isDelegateReturn DelegateReturn = True"
| "isDelegateReturn l = False"

definition c3_messages :: "Message list" where
  "c3_messages = [exampleMessage Call addrA addrB True None None,
                  exampleMessage Call addrB addrC False (Some ''revert'') None,
                  exampleMessage Create addrC addrD True None None]"

definition c3_final :: state where
  "c3_final =
     \<lparr>store = c3_messages, contractCallStack = [0, 1, 2], previousMessage = Some 2,
      plantUml = [CallArrow ''AAAAaaaa'' ''->'' ''BBBBbbbb'' '''' '''', Activate ''BBBBbbbb'',
                  CallArrow ''BBBBbbbb'' ''->'' ''CCCCcccc'' '''' '''', Activate ''CCCCcccc'',
                  CallArrow ''CCCCcccc'' ''->o'' ''DDDDdddd'' '''' '''', Activate ''DDDDdddd'']\<rparr>"


text \<open>The lines the dispatch on \<open>message.type\<close> appends, given the function text.\<close>

definition dispatchLines :: "PumlGenerationOptions \<Rightarrow> Message \<Rightarrow> string \<Rightarrow> line list" where
  "dispatchLines options message txt =
     (if type_m message = Call \<or> type_m message = Create \<or> type_m message = Delegatecall
      then [CallArrow (participantId (from_m message)) (genArrow message)
              (participantId (to_m message)) txt (genGasUsage message (gas options)),
            if type_m message = Delegatecall then ActivateDelegate (participantId (to_m message))
            else Activate (participantId (to_m message))]
      else if type_m message = Value
      then [ValueArrow (participantId (from_m message)) (genArrow message)
              (participantId (to_m message)) (ethersText message)
              (genGasUsage message (gas options))]
      else if type_m message = Selfdestruct then [SelfdestructReturn]
      else [])"

text \<open>
  Activations of a delegated lifeline and selfdestruct returns. A \<open>Selfdestruct\<close>
  pops nothing when the walk of its iteration has left the stack empty;
  \<open>emptyPops\<close> counts the iterations of the loop where that happens.
\<close>

fun isDelegateActivation :: "line \<Rightarrow> bool" where
  "isDelegateActivation (ActivateDelegate p) = True"
| "isDelegateActivation l = False"








text \<open>
  What holds before the iteration for index \<open>i\<close> when the input is one call \<open>c\<close>
  followed by the delegate calls \<open>ds\<close>.
\<close>

definition delegateRun :: "Message \<Rightarrow> Message list \<Rightarrow> nat \<Rightarrow> state \<Rightarrow> bool" where
  "delegateRun c ds i t =
     (store t = c # ds
      \<and> filter isFrameClose (plantUml t) = []
      \<and> length (filter isDelegateReturn (plantUml t)) = length (filter isLast (take (i - 1) (c # ds)))
      \<and> (if i = 0
          then contractCallStack t = [] \<and> previousMessage t = None
               \<and> filter isFrameActivation (plantUml t) = []
          else contractCallStack t = [0] \<and> previousMessage t = Some (i - 1)
               \<and> length (filter isFrameActivation (plantUml t)) = 1))"

definition c4_messages :: "Message list" where
  "c4_messages =
     [exampleMessage Call addrA addrB True None None,
      exampleMessage Delegatecall addrB addrC True None (Some \<lparr>id_d = 1, last_d = True\<rparr>),
      exampleMessage Delegatecall addrB addrD True None (Some \<lparr>id_d = 2, last_d = False\<rparr>)]"

definition c4_lines :: "line list" where
  "c4_lines =
     [CallArrow ''AAAAaaaa'' ''->'' ''BBBBbbbb'' '''' '''', Activate ''BBBBbbbb'',
      CallArrow ''BBBBbbbb'' ''-[#3471CD]>'' ''CCCCcccc'' '''' '''', ActivateDelegate ''CCCCcccc'',
      DelegateReturn,
      CallArrow ''BBBBbbbb'' ''-[#3471CD]>'' ''DDDDdddd'' '''' '''', ActivateDelegate ''DDDDdddd'',
      Return]"

definition c4_delegate_only :: "Message list" where
  "c4_delegate_only =
     [exampleMessage Delegatecall addrA addrB True None (Some \<lparr>id_d = 0, last_d = True\<rparr>)]"

definition c4_state1 :: state where
  "c4_state1 =
     \<lparr>store = c4_messages, contractCallStack = [0], previousMessage = Some 0,
      plantUml = [CallArrow ''AAAAaaaa'' ''->'' ''BBBBbbbb'' '''' '''', Activate ''BBBBbbbb'']\<rparr>"

definition c4_state2 :: state where
  "c4_state2 =
     \<lparr>store = c4_messages, contractCallStack = [0], previousMessage = Some 1,
      plantUml = [CallArrow ''AAAAaaaa'' ''->'' ''BBBBbbbb'' '''' '''', Activate ''BBBBbbbb'',
                  CallArrow ''BBBBbbbb'' ''-[#3471CD]>'' ''CCCCcccc'' '''' '''',
                  ActivateDelegate ''CCCCcccc'']\<rparr>"

definition c4_returning :: "Message list" where
  "c4_returning =
     [exampleMessage Call addrA addrB True None None,
      exampleMessage Delegatecall addrA addrC True None (Some \<lparr>id_d = 1, last_d = False\<rparr>)]"

definition c4_returning1 :: state where
  "c4_returning1 =
     \<lparr>store = c4_returning, contractCallStack = [0], previousMessage = Some 0,
      plantUml = [CallArrow ''AAAAaaaa'' ''->'' ''BBBBbbbb'' '''' '''', Activate ''BBBBbbbb'']\<rparr>"

definition c4_returning2 :: state where
  "c4_returning2 =
     \<lparr>store = c4_returning, contractCallStack = [], previousMessage = Some 1,
      plantUml = [CallArrow ''AAAAaaaa'' ''->'' ''BBBBbbbb'' '''' '''', Activate ''BBBBbbbb'',
                  Return,
                  CallArrow ''AAAAaaaa'' ''-[#3471CD]>'' ''CCCCcccc'' '''' '''',
                  ActivateDelegate ''CCCCcccc'']\<rparr>"

definition c4_state3 :: state where
  "c4_state3 =
     \<lparr>store = c4_messages, contractCallStack = [0], previousMessage = Some 2,
      plantUml = [CallArrow ''AAAAaaaa'' ''->'' ''BBBBbbbb'' '''' '''', Activate ''BBBBbbbb'',
                  CallArrow ''BBBBbbbb'' ''-[#3471CD]>'' ''CCCCcccc'' '''' '''',
                  ActivateDelegate ''CCCCcccc'',
                  DelegateReturn,
                  CallArrow ''BBBBbbbb'' ''-[#3471CD]>'' ''DDDDdddd'' '''' '''',
                  ActivateDelegate ''DDDDdddd'']\<rparr>"

definition c4_transfer_after_last :: "Message list" where
  "c4_transfer_after_last =
     [exampleMessage Call addrA addrB True None None,
      exampleMessage Delegatecall addrB addrC True None (Some \<lparr>id_d = 1, last_d = True\<rparr>),
      exampleMessage Value addrB addrD True None None,
      exampleMessage Call addrB addrD True None None]"

definition c4_transfer_lines :: "line list" where
  "c4_transfer_lines =
     [CallArrow ''AAAAaaaa'' ''->'' ''BBBBbbbb'' '''' '''', Activate ''BBBBbbbb'',
      CallArrow ''BBBBbbbb'' ''-[#3471CD]>'' ''CCCCcccc'' '''' '''', ActivateDelegate ''CCCCcccc'',
      DelegateReturn,
      ValueArrow ''BBBBbbbb'' ''->>'' ''DDDDdddd'' ''1.00'' '''',
      DelegateReturn,
      CallArrow ''BBBBbbbb'' ''->'' ''DDDDdddd'' '''' '''', Activate ''DDDDdddd'',
      Return, Return]"

text \<open>
  Inserting a message after index \<open>k\<close> moves the later messages up by one:
  \<open>shiftAfter k\<close> maps an index of the shorter input to the index of the same
  message in the longer one. \<open>sim k n s1 s2\<close> relates a state \<open>s1\<close> of the run on the
  shorter input (of length \<open>n\<close>) to a state \<open>s2\<close> of the run on the longer one:
  the same messages under the same references, and the same lines but for value
  arrows.
\<close>

definition shiftAfter :: "nat \<Rightarrow> nat \<Rightarrow> nat" where
  "shiftAfter k j = (if j \<le> k then j else Suc j)"

definition sim :: "nat \<Rightarrow> nat \<Rightarrow> state \<Rightarrow> state \<Rightarrow> bool" where
  "sim k n s1 s2 =
     (length (store s1) = n \<and> length (store s2) = Suc n
      \<and> (\<forall>j < n. store s2 ! shiftAfter k j = store s1 ! j)
      \<and> contractCallStack s2 = map (shiftAfter k) (contractCallStack s1)
      \<and> previousMessage s2 = map_option (shiftAfter k) (previousMessage s1)
      \<and> (\<forall>c \<in> set (contractCallStack s1). c < n)
      \<and> (\<forall>p. previousMessage s1 = Some p \<longrightarrow> p < n)
      \<and> filter (\<lambda>l. \<not> isValueArrow l) (plantUml s2) = filter (\<lambda>l. \<not> isValueArrow l) (plantUml s1))"

definition simResult :: "nat \<Rightarrow> nat \<Rightarrow> exn + state \<Rightarrow> exn + state \<Rightarrow> bool" where
  "simResult k n r1 r2 =
     (case r1 of Inl e \<Rightarrow> r2 = Inl e | Inr s1 \<Rightarrow> (\<exists>s2. r2 = Inr s2 \<and> sim k n s1 s2))"

definition c6_without :: "Message list" where
  "c6_without = [exampleMessage Call addrA addrB False None None,
                 exampleMessage Call addrB addrD True None None]"

definition c6_with :: "Message list" where
  "c6_with = [exampleMessage Call addrA addrB False None None,
              exampleMessage Value addrB addrC True None None,
              exampleMessage Call addrB addrD True None None]"

definition c6_with_from_caller :: "Message list" where
  "c6_with_from_caller = [exampleMessage Call addrA addrB False None None,
                          exampleMessage Value addrA addrC True None None,
                          exampleMessage Call addrB addrD True None None]"

definition c6_state :: state where
  "c6_state =
     \<lparr>store = c6_with, contractCallStack = [0], previousMessage = Some 0,
      plantUml = [CallArrow ''AAAAaaaa'' ''->'' ''BBBBbbbb'' '''' '''', Activate ''BBBBbbbb'']\<rparr>"

section \<open>The walk on an empty stack\<close>

lemma returnDetection_empty: "returnDetection st [] prev m = ([], [])"
  by (simp add: returnDetection_def split: option.splits)

section \<open>Messages of an unrecognised kind\<close>

text \<open>
  C8 (as amended). A message whose \<open>type\<close> is none of the five kinds raises nothing:
  after return detection and the delegated-lifeline return, the iteration appends no
  line of its own, pushes and pops nothing, and makes the message the previous
  message.
\<close>

theorem unrecognized_kind_skipped:
  assumes "type_m (store s ! i) \<notin> {Value, Call, Create, Selfdestruct, Delegatecall}"
  shows "step options s i =
           Inr (s\<lparr>contractCallStack :=
                    fst (returnDetection (store s) (contractCallStack s) (previousMessage s) (store s ! i)),
                  previousMessage := Some i,
                  plantUml := plantUml s
                    @ snd (returnDetection (store s) (contractCallStack s) (previousMessage s) (store s ! i))
                    @ delegateCloseout (store s) (previousMessage s)\<rparr>)"
  using assms by (simp add: step_def Let_def)

theorem unrecognized_kind_skipped_witness:
  "type_m (store (init c8_messages) ! 0) \<notin> {Value, Call, Create, Selfdestruct, Delegatecall}
   \<and> step noOptions (init c8_messages) 0 =
       Inr \<lparr>store = c8_messages, contractCallStack = [], previousMessage = Some 0, plantUml = []\<rparr>"
proof -
  have t: "type_m (store (init c8_messages) ! 0) \<notin> {Value, Call, Create, Selfdestruct, Delegatecall}"
    by (simp add: init_def c8_messages_def exampleMessage_def)
  from unrecognized_kind_skipped [OF t, of noOptions] t show ?thesis
    by (simp add: init_def delegateCloseout_def returnDetection_def)
qed

text \<open>
  A sequence whose first message has the unknown kind 7: \<open>genMessages\<close> returns the
  diagram of the call that follows it, and no error.
\<close>

theorem unrecognized_kind_counterexample:
  "type_m (c8_messages ! 0) = 7 \<and>
   genMessages c8_messages noOptions =
     Inr ([CHR 0x0A] @ ''BBBBbbbb -> CCCCcccc: '' @ [CHR 0x0A] @ ''activate CCCCcccc'' @ [CHR 0x0A]
          @ ''return'' @ [CHR 0x0A])"
  by code_simp

section \<open>Selfdestruct\<close>

text \<open>
  C10. A \<open>Selfdestruct\<close> message processed while the frame stack is empty raises
  nothing: the iteration appends the selfdestruct return (after the return from a
  delegated lifeline, if one is due), the stack is still empty, the message becomes
  the previous message, and the loop goes on with the messages that follow.
\<close>

theorem selfdestruct_on_empty_stack:
  assumes "type_m (store s ! i) = Selfdestruct" and "contractCallStack s = []"
  shows "step options s i =
           Inr (s\<lparr>contractCallStack := [], previousMessage := Some i,
                  plantUml := plantUml s @ delegateCloseout (store s) (previousMessage s)
                                @ [SelfdestructReturn]\<rparr>)
         \<and> loop options s (i # rest) =
             loop options (s\<lparr>contractCallStack := [], previousMessage := Some i,
                  plantUml := plantUml s @ delegateCloseout (store s) (previousMessage s)
                                @ [SelfdestructReturn]\<rparr>) rest"
proof -
  have "step options s i =
           Inr (s\<lparr>contractCallStack := [], previousMessage := Some i,
                  plantUml := plantUml s @ delegateCloseout (store s) (previousMessage s)
                                @ [SelfdestructReturn]\<rparr>)"
    using assms by (simp add: step_def Let_def returnDetection_empty)
  then show ?thesis by simp
qed

theorem selfdestruct_on_empty_stack_witness:
  "type_m (store (init c10_messages) ! 0) = Selfdestruct
   \<and> contractCallStack (init c10_messages) = []
   \<and> step noOptions (init c10_messages) 0 =
       Inr \<lparr>store = c10_messages, contractCallStack = [], previousMessage = Some 0,
            plantUml = [SelfdestructReturn]\<rparr>
   \<and> genLines c10_messages noOptions =
       Inr [SelfdestructReturn, CallArrow ''AAAAaaaa'' ''->'' ''CCCCcccc'' '''' '''',
            Activate ''CCCCcccc'', Return]"
proof -
  have t: "type_m (store (init c10_messages) ! 0) = Selfdestruct"
    by (simp add: init_def c10_messages_def exampleMessage_def)
  have e: "contractCallStack (init c10_messages) = []" by (simp add: init_def)
  have g: "genLines c10_messages noOptions =
       Inr [SelfdestructReturn, CallArrow ''AAAAaaaa'' ''->'' ''CCCCcccc'' '''' '''',
            Activate ''CCCCcccc'', Return]"
    by code_simp
  from selfdestruct_on_empty_stack [OF t e, of noOptions "[]"] t e g show ?thesis
    by (simp add: init_def delegateCloseout_def)
qed

section \<open>The amount of a value transfer, as printed\<close>

lemma two_digits:
  assumes "r < 100"
  shows "replicate (2 - length (decimalText r)) (CHR ''0'') @ decimalText r
         = [digit_char (r div 10), digit_char (r mod 10)]"
proof (cases "10 \<le> r")
  case True
  with assms have "r div 10 < 10" by simp
  then have "decimalText (r div 10) = [digit_char (r div 10)]"
    by (subst decimalText.simps) simp
  with True have "decimalText r = [digit_char (r div 10), digit_char (r mod 10)]"
    by (subst decimalText.simps) simp
  then show ?thesis by simp
next
  case False
  then have "decimalText r = [digit_char r]"
    by (subst decimalText.simps) simp
  moreover from False have "r div 10 = 0" by simp
  ultimately show ?thesis using False by (simp add: digit_char_def)
qed

lemma round_nearest:
  fixes a d :: nat
  assumes "0 < d"
  shows "2 * \<bar>int ((2 * a + d) div (2 * d)) * int d - int a\<bar> \<le> int d"
proof -
  define q where "q = (2 * a + d) div (2 * d)"
  define r where "r = (2 * a + d) mod (2 * d)"
  have "2 * a + d = q * (2 * d) + r"
    unfolding q_def r_def by (rule div_mult_mod_eq [symmetric])
  moreover have "r < 2 * d" using assms by (simp add: r_def)
  ultimately have "int (2 * a + d) = int q * (2 * int d) + int r" "int r < 2 * int d"
    by (metis of_nat_add of_nat_mult of_nat_numeral, simp)
  then have "2 * (int q * int d - int a) = int d - int r" "int r < 2 * int d" "0 \<le> int r"
    by (simp_all add: algebra_simps)
  then show ?thesis unfolding q_def [symmetric] by linarith
qed

lemma roundHalfUp_hundredths:
  "roundHalfUp 2 (bn_div_pow10 v 18) = (2 * nat \<bar>v\<bar> + 10 ^ 16) div (2 * 10 ^ 16)"
proof -
  have "(2 * nat \<bar>v\<bar> * 10 ^ 2 + 10 ^ 18) = (2 * nat \<bar>v\<bar> + 10 ^ 16) * (100::nat)" by simp
  moreover have "(2 * 10 ^ 18) = (2 * 10 ^ 16) * (100::nat)" by simp
  ultimately have "(2 * nat \<bar>v\<bar> * 10 ^ 2 + 10 ^ 18) div (2 * 10 ^ 18)
        = ((2 * nat \<bar>v\<bar> + 10 ^ 16) * 100) div ((2 * 10 ^ 16) * 100)" by presburger
  also have "\<dots> = (2 * nat \<bar>v\<bar> + 10 ^ 16) div (2 * 10 ^ 16)"
    by (rule div_mult_mult2) simp
  finally show ?thesis by (simp add: roundHalfUp_def bn_div_pow10_def)
qed

lemma roundHalfUp_nearest:
  "2 * \<bar>int (roundHalfUp 2 (bn_div_pow10 v 18)) * 10 ^ 16 - \<bar>v\<bar>\<bar> \<le> 10 ^ 16"
proof -
  have "2 * \<bar>int ((2 * nat \<bar>v\<bar> + 10 ^ 16) div (2 * 10 ^ 16)) * int (10 ^ 16) - int (nat \<bar>v\<bar>)\<bar>
          \<le> int (10 ^ 16)"
    by (rule round_nearest) simp
  then show ?thesis by (simp add: roundHalfUp_hundredths)
qed

lemma ethersText_shape:
  "ethersText m =
     (if value_m m < 0 then ''-'' else '''')
     @ rev (groupRev (rev (decimalText (roundHalfUp 2 (bn_div_pow10 (value_m m) 18) div 100))))
     @ ''.''
     @ [digit_char (roundHalfUp 2 (bn_div_pow10 (value_m m) 18) mod 100 div 10),
        digit_char (roundHalfUp 2 (bn_div_pow10 (value_m m) 18) mod 10)]"
proof -
  let ?q = "roundHalfUp 2 (bn_div_pow10 (value_m m) 18)"
  have "?q mod 100 mod 10 = ?q mod 10" by (simp add: mod_mod_cancel)
  with two_digits [of "?q mod 100"] show ?thesis
    by (simp add: ethersText_def toFormat_def Let_def bn_div_pow10_def)
qed

lemma participantId_examples:
  "participantId addrA = ''AAAAaaaa''" "participantId addrB = ''BBBBbbbb''"
  "participantId addrC = ''CCCCcccc''" "participantId addrD = ''DDDDdddd''"
  by (simp_all add: participantId_def substr_def addrA_def addrB_def addrC_def addrD_def)

lemma toFormat_one_ether: "toFormat 2 (bn_div_pow10 1000000000000000000 18) = ''1.00''"
  by (simp add: toFormat_def roundHalfUp_def bn_div_pow10_def decimalText.simps digit_char_def)

lemma ethersText_example: "ethersText (exampleMessage t f x ok er dc) = ''1.00''"
  by (simp add: ethersText_def exampleMessage_def toFormat_one_ether)

text \<open>
  C9. A \<open>Value\<close> message never fails, and the last line its iteration appends is
  the value arrow whose amount is the two-decimal format of the message's value
  divided by \<open>10 ^ 18\<close>: a sign for a negative value, the grouped integer part, a
  point and two digits. The number \<open>q\<close> of hundredths printed is the nearest one
  to the exact quotient: \<open>q * 10 ^ 16\<close> is within half of \<open>10 ^ 16\<close> of the value.
\<close>

theorem value_arrow_amount:
  assumes "type_m (store s ! i) = Value"
  shows "(\<exists>s'. step options s i = Inr s'
           \<and> plantUml s' = plantUml s
               @ snd (returnDetection (store s) (contractCallStack s) (previousMessage s) (store s ! i))
               @ delegateCloseout (store s) (previousMessage s)
               @ [ValueArrow (participantId (from_m (store s ! i))) (genArrow (store s ! i))
                    (participantId (to_m (store s ! i)))
                    (toFormat 2 (bn_div_pow10 (value_m (store s ! i)) 18))
                    (genGasUsage (store s ! i) (gas options))])
     \<and> toFormat 2 (bn_div_pow10 (value_m (store s ! i)) 18) =
           (if value_m (store s ! i) < 0 then ''-'' else '''')
           @ rev (groupRev (rev (decimalText
                (roundHalfUp 2 (bn_div_pow10 (value_m (store s ! i)) 18) div 100))))
           @ ''.''
           @ [digit_char (roundHalfUp 2 (bn_div_pow10 (value_m (store s ! i)) 18) mod 100 div 10),
              digit_char (roundHalfUp 2 (bn_div_pow10 (value_m (store s ! i)) 18) mod 10)]
     \<and> 2 * \<bar>int (roundHalfUp 2 (bn_div_pow10 (value_m (store s ! i)) 18)) * 10 ^ 16
              - \<bar>value_m (store s ! i)\<bar>\<bar> \<le> 10 ^ 16"
proof (intro conjI)
  show "\<exists>s'. step options s i = Inr s'
           \<and> plantUml s' = plantUml s
               @ snd (returnDetection (store s) (contractCallStack s) (previousMessage s) (store s ! i))
               @ delegateCloseout (store s) (previousMessage s)
               @ [ValueArrow (participantId (from_m (store s ! i))) (genArrow (store s ! i))
                    (participantId (to_m (store s ! i)))
                    (toFormat 2 (bn_div_pow10 (value_m (store s ! i)) 18))
                    (genGasUsage (store s ! i) (gas options))]"
    using assms by (simp add: step_def Let_def ethersText_def)
  show "toFormat 2 (bn_div_pow10 (value_m (store s ! i)) 18) =
           (if value_m (store s ! i) < 0 then ''-'' else '''')
           @ rev (groupRev (rev (decimalText
                (roundHalfUp 2 (bn_div_pow10 (value_m (store s ! i)) 18) div 100))))
           @ ''.''
           @ [digit_char (roundHalfUp 2 (bn_div_pow10 (value_m (store s ! i)) 18) mod 100 div 10),
              digit_char (roundHalfUp 2 (bn_div_pow10 (value_m (store s ! i)) 18) mod 10)]"
    using ethersText_shape [of "store s ! i"] by (simp add: ethersText_def)
  show "2 * \<bar>int (roundHalfUp 2 (bn_div_pow10 (value_m (store s ! i)) 18)) * 10 ^ 16
              - \<bar>value_m (store s ! i)\<bar>\<bar> \<le> 10 ^ 16"
    by (rule roundHalfUp_nearest)
qed

theorem value_arrow_amount_witness:
  "type_m (store (init c9_messages) ! 0) = Value
   \<and> value_m (store (init c9_messages) ! 0) = 10 ^ 18
   \<and> step noOptions (init c9_messages) 0 =
       Inr \<lparr>store = c9_messages, contractCallStack = [], previousMessage = None,
            plantUml = [ValueArrow ''CCCCcccc'' ''->>'' ''AAAAaaaa'' ''1.00'' '''']\<rparr>
   \<and> toFormat 2 (bn_div_pow10 1234565000000000000000 18) = ''1,234.57''
   \<and> toFormat 2 (bn_div_pow10 (- 5000000000000000) 18) = ''-0.01''"
proof -
  have t: "type_m (store (init c9_messages) ! 0) = Value"
    by (simp add: init_def c9_messages_def exampleMessage_def)
  have v: "value_m (store (init c9_messages) ! 0) = 10 ^ 18"
    by (simp add: init_def c9_messages_def exampleMessage_def)
  have g: "toFormat 2 (bn_div_pow10 1234565000000000000000 18) = ''1,234.57''"
          "toFormat 2 (bn_div_pow10 (- 5000000000000000) 18) = ''-0.01''"
    by (simp_all add: toFormat_def roundHalfUp_def bn_div_pow10_def decimalText.simps digit_char_def)
  have "step noOptions (init c9_messages) 0 =
       Inr \<lparr>store = c9_messages, contractCallStack = [], previousMessage = None,
            plantUml = [ValueArrow ''CCCCcccc'' ''->>'' ''AAAAaaaa'' ''1.00'' '''']\<rparr>"
    using value_arrow_amount [OF t, of noOptions]
    by (simp add: step_def init_def c9_messages_def exampleMessage_def returnDetection_def
      delegateCloseout_def participantId_examples genArrow_def ethersText_def toFormat_one_ether
      genGasUsage_def noOptions_def)
  with t v g show ?thesis by simp
qed

section \<open>The return-detection walk\<close>

lemma unwind_rev:
  "unwind st f rs (rev rs) =
     (rev (drop (Suc (length (takeWhile (\<lambda>c. from_m (st ! c) \<noteq> f) rs))) rs),
      concat (map (\<lambda>c. genEndLifeline (st ! c))
                (take (Suc (length (takeWhile (\<lambda>c. from_m (st ! c) \<noteq> f) rs))) rs)))"
proof (induction rs)
  case Nil
  show ?case by simp
next
  case (Cons c cs)
  show ?case
  proof (cases "f = from_m (st ! c)")
    case True
    then show ?thesis by simp
  next
    case False
    then have ne: "from_m (st ! c) \<noteq> f" by auto
    from Cons ne show ?thesis by (simp add: False)
  qed
qed

lemma unwind_closedFrames:
  "unwind st f (rev stk) stk =
     (take (length stk - length (closedFrames st f stk)) stk,
      concat (map (\<lambda>c. genEndLifeline (st ! c)) (closedFrames st f stk)))"
proof -
  have "unwind st f (rev stk) (rev (rev stk)) =
     (rev (drop (Suc (length (takeWhile (\<lambda>c. from_m (st ! c) \<noteq> f) (rev stk)))) (rev stk)),
      concat (map (\<lambda>c. genEndLifeline (st ! c)) (closedFrames st f stk)))"
    unfolding closedFrames_def by (rule unwind_rev)
  moreover have "rev (drop (Suc (length (takeWhile (\<lambda>c. from_m (st ! c) \<noteq> f) (rev stk)))) (rev stk))
     = take (length stk - length (closedFrames st f stk)) stk"
    by (simp add: closedFrames_def rev_drop min_def)
  ultimately show ?thesis by simp
qed

lemma closedFrames_Nil [simp]: "closedFrames st f [] = []"
  by (simp add: closedFrames_def)

lemma closedFrames_prefix:
  "closedFrames st f stk = take (length (closedFrames st f stk)) (rev stk)"
  by (simp add: closedFrames_def min_def)


lemma closedFrames_nonempty: "stk \<noteq> [] \<Longrightarrow> closedFrames st f stk \<noteq> []"
  by (simp add: closedFrames_def)

lemma closedFrames_before:
  assumes "Suc j < length (closedFrames st f stk)"
  shows "from_m (st ! (closedFrames st f stk ! j)) \<noteq> f"
proof -
  let ?P = "\<lambda>c. from_m (st ! c) \<noteq> f"
  from assms have j: "j < length (takeWhile ?P (rev stk))"
    by (simp add: closedFrames_def)
  then have "takeWhile ?P (rev stk) ! j \<in> set (takeWhile ?P (rev stk))" by (rule nth_mem)
  then have "?P (takeWhile ?P (rev stk) ! j)" by (rule set_takeWhileD [THEN conjunct2])
  moreover from j have "takeWhile ?P (rev stk) ! j = rev stk ! j" by (rule takeWhile_nth)
  moreover from assms have "closedFrames st f stk ! j = rev stk ! j"
    by (simp add: closedFrames_def)
  ultimately show ?thesis by simp
qed

lemma closedFrames_last:
  assumes "closedFrames st f stk \<noteq> []"
  shows "from_m (st ! last (closedFrames st f stk)) = f \<or> closedFrames st f stk = rev stk"
proof (cases "length (takeWhile (\<lambda>c. from_m (st ! c) \<noteq> f) (rev stk)) < length (rev stk)")
  case True
  let ?P = "\<lambda>c. from_m (st ! c) \<noteq> f"
  let ?k = "length (takeWhile ?P (rev stk))"
  from True have "\<not> ?P (rev stk ! ?k)" by (rule nth_length_takeWhile)
  moreover from True have "last (closedFrames st f stk) = rev stk ! ?k"
    by (simp add: closedFrames_def take_Suc_conv_app_nth)
  ultimately show ?thesis by simp
next
  case False
  then show ?thesis by (simp add: closedFrames_def)
qed

lemma genEndLifeline_one_close: "length (filter isFrameClose (genEndLifeline m)) = 1"
  by (auto simp: genEndLifeline_def split: option.splits)

lemma closes_of_frames:
  "length (filter isFrameClose (concat (map (\<lambda>c. genEndLifeline (st ! c)) cs))) = length cs"
  by (induction cs) (simp_all add: genEndLifeline_one_close)

lemma returnDetection_fires:
  "returnDetection (store s) (contractCallStack s) (previousMessage s) (store s ! i) =
     (if walkFires s i
      then (take (length (contractCallStack s)
                   - length (closedFrames (store s) (from_m (store s ! i)) (contractCallStack s)))
              (contractCallStack s),
            concat (map (\<lambda>c. genEndLifeline (store s ! c))
                      (closedFrames (store s) (from_m (store s ! i)) (contractCallStack s))))
      else (contractCallStack s, []))"
  by (simp add: returnDetection_def walkFires_def unwind_closedFrames split: option.splits)

lemma delegateCloseout_no_frame_close: "\<forall>l \<in> set (delegateCloseout st prev). \<not> isFrameClose l"
  by (auto simp: delegateCloseout_def split: option.splits)

lemma step_lines:
  assumes "step options s i = Inr s'"
  shows "\<exists>rest. plantUml s' = plantUml s
            @ snd (returnDetection (store s) (contractCallStack s) (previousMessage s) (store s ! i))
            @ rest \<and> (\<forall>l \<in> set rest. \<not> isFrameClose l)"
proof -
  let ?w = "snd (returnDetection (store s) (contractCallStack s) (previousMessage s) (store s ! i))"
  let ?d = "delegateCloseout (store s) (previousMessage s)"
  from assms obtain ds where "plantUml s' = plantUml s @ ?w @ ?d @ ds" "\<forall>l \<in> set ds. \<not> isFrameClose l"
    by (auto simp: step_def Let_def split: if_splits sum.splits)
  with delegateCloseout_no_frame_close [of "store s" "previousMessage s"]
  have "plantUml s' = plantUml s @ ?w @ (?d @ ds) \<and> (\<forall>l \<in> set (?d @ ds). \<not> isFrameClose l)"
    by auto
  then show ?thesis by blast
qed

lemma step_stack:
  "step options s i = Inr s' \<Longrightarrow>
   contractCallStack s' =
     (if type_m (store s ! i) = Call \<or> type_m (store s ! i) = Create
      then fst (returnDetection (store s) (contractCallStack s) (previousMessage s) (store s ! i)) @ [i]
      else if type_m (store s ! i) = Selfdestruct
      then butlast (fst (returnDetection (store s) (contractCallStack s) (previousMessage s) (store s ! i)))
      else fst (returnDetection (store s) (contractCallStack s) (previousMessage s) (store s ! i)))"
  by (auto simp: step_def Let_def split: if_splits sum.splits)

text \<open>
  C1. In the iteration for the message at \<open>i\<close>, the frames closed are: none, unless
  there is a previous message whose \<open>to\<close> differs from this message's \<open>from\<close> and
  which is not a \<open>Delegatecall\<close>; in that case the frames \<open>cf\<close> taken from the top
  of the stack downward, where no frame before the last one of \<open>cf\<close> has this
  message's \<open>from\<close>, and the last one has it unless the whole stack was closed.
  The lines appended start with the closes of \<open>cf\<close> in that order, one close
  instruction for each frame, and no other line of the iteration closes a
  frame; the stack handed to the dispatch is the old one without \<open>cf\<close>.
\<close>

theorem return_detection_walk:
  assumes "step options s i = Inr s'"
  shows "\<exists>cf. cf = (if walkFires s i
                    then closedFrames (store s) (from_m (store s ! i)) (contractCallStack s)
                    else [])
     \<and> (\<exists>rest. plantUml s' = plantUml s @ concat (map (\<lambda>c. genEndLifeline (store s ! c)) cf) @ rest
               \<and> (\<forall>l \<in> set rest. \<not> isFrameClose l))
     \<and> length (filter isFrameClose (concat (map (\<lambda>c. genEndLifeline (store s ! c)) cf))) = length cf
     \<and> contractCallStack s' =
          (if type_m (store s ! i) = Call \<or> type_m (store s ! i) = Create
           then take (length (contractCallStack s) - length cf) (contractCallStack s) @ [i]
           else if type_m (store s ! i) = Selfdestruct
           then butlast (take (length (contractCallStack s) - length cf) (contractCallStack s))
           else take (length (contractCallStack s) - length cf) (contractCallStack s))
     \<and> cf = take (length cf) (rev (contractCallStack s))
     \<and> (\<forall>j. Suc j < length cf \<longrightarrow> from_m (store s ! (cf ! j)) \<noteq> from_m (store s ! i))
     \<and> (cf \<noteq> [] \<longrightarrow> from_m (store s ! last cf) = from_m (store s ! i)
                       \<or> cf = rev (contractCallStack s))
     \<and> (walkFires s i \<and> contractCallStack s \<noteq> [] \<longrightarrow> cf \<noteq> [])"
proof (cases "walkFires s i")
  case True
  let ?cf = "closedFrames (store s) (from_m (store s ! i)) (contractCallStack s)"
  from True have w: "returnDetection (store s) (contractCallStack s) (previousMessage s) (store s ! i) =
      (take (length (contractCallStack s) - length ?cf) (contractCallStack s),
       concat (map (\<lambda>c. genEndLifeline (store s ! c)) ?cf))"
    by (simp add: returnDetection_fires)
  have 1: "\<exists>rest. plantUml s' = plantUml s @ concat (map (\<lambda>c. genEndLifeline (store s ! c)) ?cf) @ rest
               \<and> (\<forall>l \<in> set rest. \<not> isFrameClose l)"
    using step_lines [OF assms] by (simp add: w)
  have 2: "contractCallStack s' =
          (if type_m (store s ! i) = Call \<or> type_m (store s ! i) = Create
           then take (length (contractCallStack s) - length ?cf) (contractCallStack s) @ [i]
           else if type_m (store s ! i) = Selfdestruct
           then butlast (take (length (contractCallStack s) - length ?cf) (contractCallStack s))
           else take (length (contractCallStack s) - length ?cf) (contractCallStack s))"
    using step_stack [OF assms] by (simp add: w)
  have 3: "?cf = take (length ?cf) (rev (contractCallStack s))" by (rule closedFrames_prefix)
  have 4: "\<forall>j. Suc j < length ?cf \<longrightarrow> from_m (store s ! (?cf ! j)) \<noteq> from_m (store s ! i)"
    using closedFrames_before by blast
  have 5: "?cf \<noteq> [] \<longrightarrow> from_m (store s ! last ?cf) = from_m (store s ! i)
                       \<or> ?cf = rev (contractCallStack s)"
    using closedFrames_last by blast
  have 6: "contractCallStack s \<noteq> [] \<longrightarrow> ?cf \<noteq> []"
    using closedFrames_nonempty by blast
  from True 1 2 3 4 5 6 show ?thesis by (simp add: closes_of_frames)
next
  case False
  then have w: "returnDetection (store s) (contractCallStack s) (previousMessage s) (store s ! i) =
      (contractCallStack s, [])"
    by (simp add: returnDetection_fires)
  have 1: "\<exists>rest. plantUml s' = plantUml s @ rest \<and> (\<forall>l \<in> set rest. \<not> isFrameClose l)"
    using step_lines [OF assms] by (simp add: w)
  have 2: "contractCallStack s' =
          (if type_m (store s ! i) = Call \<or> type_m (store s ! i) = Create
           then contractCallStack s @ [i]
           else if type_m (store s ! i) = Selfdestruct
           then butlast (contractCallStack s)
           else contractCallStack s)"
    using step_stack [OF assms] by (simp add: w)
  from False 1 2 show ?thesis by simp
qed
theorem return_detection_walk_witness:
  "loop noOptions (init c1_messages) [0, 1, 2] = Inr c1_state
   \<and> step noOptions c1_state 3 = Inr c1_state'
   \<and> walkFires c1_state 3
   \<and> closedFrames (store c1_state) (from_m (store c1_state ! 3)) (contractCallStack c1_state) = [2, 1]
   \<and> contractCallStack c1_state' = [0, 3]
   \<and> (\<exists>rest. plantUml c1_state' = plantUml c1_state
          @ concat (map (\<lambda>c. genEndLifeline (store c1_state ! c)) [2, 1]) @ rest
          \<and> (\<forall>l \<in> set rest. \<not> isFrameClose l))"
proof -
  have l: "loop noOptions (init c1_messages) [0, 1, 2] = Inr c1_state" by code_simp
  have st: "step noOptions c1_state 3 = Inr c1_state'" by code_simp
  have w: "walkFires c1_state 3" by code_simp
  have cf: "closedFrames (store c1_state) (from_m (store c1_state ! 3)) (contractCallStack c1_state) = [2, 1]"
    by code_simp
  have stk: "contractCallStack c1_state' = [0, 3]" by (simp add: c1_state'_def)
  from return_detection_walk [OF st] obtain fs where
    fs: "fs = (if walkFires c1_state 3
               then closedFrames (store c1_state) (from_m (store c1_state ! 3)) (contractCallStack c1_state)
               else [])"
    and out: "\<exists>rest. plantUml c1_state' = plantUml c1_state
          @ concat (map (\<lambda>c. genEndLifeline (store c1_state ! c)) fs) @ rest
          \<and> (\<forall>l \<in> set rest. \<not> isFrameClose l)"
    by blast
  from fs w cf have "fs = [2, 1]" by simp
  with out l st w cf stk show ?thesis by blast
qed

section \<open>The close of a frame\<close>

text \<open>
  C7 (as amended). The walk and the drain close each of their frames by
  \<open>genEndLifeline\<close>. The close of a frame opens with a plain return when the frame's
  message has \<open>status\<close> true, and otherwise with a destroy of the frame's
  destination and no return at all. When the message carries a non-empty error, one
  note on the frame's destination follows the close instruction directly and nothing
  else does; when the error is absent or the empty string, nothing follows. Either
  way the frame gets exactly one close instruction.
\<close>

theorem close_rule:
  "(status m \<longrightarrow> hd (genEndLifeline m) = Return)
   \<and> (\<not> status m \<longrightarrow> hd (genEndLifeline m) = Destroy (participantId (to_m m))
                       \<and> Return \<notin> set (genEndLifeline m))
   \<and> (\<forall>e. error_m m = Some e \<and> e \<noteq> '''' \<longrightarrow>
          tl (genEndLifeline m) = [Note (participantId (to_m m)) e])
   \<and> (error_m m = None \<or> error_m m = Some '''' \<longrightarrow> tl (genEndLifeline m) = [])
   \<and> length (filter isFrameClose (genEndLifeline m)) = 1
   \<and> snd (unwind st f (rev stk) stk)
       = concat (map (\<lambda>c. genEndLifeline (st ! c)) (closedFrames st f stk))
   \<and> drain s = concat (map (\<lambda>c. genEndLifeline (store s ! c)) (rev (contractCallStack s)))"
proof (intro conjI)
  show "snd (unwind st f (rev stk) stk)
       = concat (map (\<lambda>c. genEndLifeline (st ! c)) (closedFrames st f stk))"
    by (simp add: unwind_closedFrames)
  show "drain s = concat (map (\<lambda>c. genEndLifeline (store s ! c)) (rev (contractCallStack s)))"
    by (simp add: drain_def)
qed (auto simp: genEndLifeline_def split: option.splits)

theorem close_rule_witness:
  "\<not> status c7_failed \<and> error_m c7_failed = Some ''revert''
   \<and> genEndLifeline c7_failed = [Destroy ''BBBBbbbb'', Note ''BBBBbbbb'' ''revert'']"
  using close_rule [of c7_failed]
  by (simp add: c7_failed_def exampleMessage_def genEndLifeline_def participantId_def
        substr_def addrB_def)

text \<open>
  A failed frame whose error message is the empty string is closed by a destroy
  alone: the message carries an error, and no note is emitted.
\<close>

theorem close_rule_counterexample:
  "error_m c7_empty_error = Some '''' \<and> genEndLifeline c7_empty_error = [Destroy ''BBBBbbbb'']"
  by (simp add: c7_empty_error_def exampleMessage_def genEndLifeline_def participantId_def
        substr_def addrB_def)

section \<open>Lemmas about one iteration\<close>

lemma step_store:
  "step options s i = Inr s' \<Longrightarrow>
   store s' = (if type_m (store s ! i) = Value
               then (case previousMessage s of None \<Rightarrow> store s
                     | Some p \<Rightarrow> (store s)[p := (store s ! p)\<lparr>to_m := from_m (store s ! i)\<rparr>])
               else store s)"
  by (auto simp: step_def Let_def split: if_splits sum.splits)

lemma step_prev:
  "step options s i = Inr s' \<Longrightarrow>
   previousMessage s' = (if type_m (store s ! i) = Value then previousMessage s else Some i)"
  by (auto simp: step_def Let_def split: if_splits sum.splits)

lemma step_total:
  "params options \<noteq> Some True \<Longrightarrow> \<exists>s'. step options s i = Inr s'"
  by (cases "params options") (auto simp: step_def Let_def genFunctionText_def split: option.splits)

lemma walk_take:
  fixes s :: state
  shows "\<exists>n. fst (returnDetection (store s) (contractCallStack s) (previousMessage s) (store s ! i))
        = take n (contractCallStack s)"
proof (cases "walkFires s i")
  case True
  then show ?thesis by (simp add: returnDetection_fires) blast
next
  case False
  then have "fst (returnDetection (store s) (contractCallStack s) (previousMessage s) (store s ! i))
        = take (length (contractCallStack s)) (contractCallStack s)"
    by (simp add: returnDetection_fires)
  then show ?thesis by blast
qed

lemma walk_pops:
  assumes "walkFires s i" and "contractCallStack s \<noteq> []"
  shows "length (fst (returnDetection (store s) (contractCallStack s) (previousMessage s) (store s ! i)))
         < length (contractCallStack s)"
proof -
  from assms(2) have "closedFrames (store s) (from_m (store s ! i)) (contractCallStack s) \<noteq> []"
    by (rule closedFrames_nonempty)
  then have "0 < length (closedFrames (store s) (from_m (store s ! i)) (contractCallStack s))"
    by simp
  with assms show ?thesis by (simp add: returnDetection_fires)
qed

lemma last_in_take:
  assumes "distinct xs" and "xs \<noteq> []" and "last xs \<in> set (take n xs)"
  shows "length xs \<le> n"
proof (rule ccontr)
  assume "\<not> length xs \<le> n"
  then have n: "n < length xs" by simp
  then have d: "drop n xs \<noteq> []" by simp
  have "xs = take n xs @ drop n xs" by simp
  with d have "last xs = last (drop n xs)" by (metis last_appendR)
  with d have "last xs \<in> set (drop n xs)" by (metis last_in_set)
  moreover from assms(1) have "set (take n xs) \<inter> set (drop n xs) = {}"
    by (metis append_take_drop_id distinct_append)
  ultimately show False using assms(3) by blast
qed

lemma sorted_less_distinct: "sorted_wrt (<) (xs :: nat list) \<Longrightarrow> distinct xs"
  by (induction xs) auto

lemma sameButTo_refl: "sameButTo a a"
  by (simp add: sameButTo_def)

lemma sameButTo_update:
  assumes "sameButTo a b"
  shows "sameButTo a (b\<lparr>to_m := x\<rparr>)"
proof -
  from assms have h: "a\<lparr>to_m := to_m b\<rparr> = b" by (simp add: sameButTo_def)
  have "a\<lparr>to_m := to_m b\<rparr>\<lparr>to_m := x\<rparr> = a\<lparr>to_m := x\<rparr>" by simp
  then have "b\<lparr>to_m := x\<rparr> = a\<lparr>to_m := x\<rparr>" by (simp only: h)
  then show ?thesis by (simp add: sameButTo_def)
qed

lemma sameButTo_fields:
  assumes "sameButTo a b"
  shows "type_m b = type_m a" and "from_m b = from_m a" and "delegatedCall b = delegatedCall a"
    and "status b = status a" and "error_m b = error_m a" and "value_m b = value_m a"
    and "payload b = payload a" and "gasUsed b = gasUsed a" and "id_m b = id_m a"
    and "parentId b = parentId a" and "gasLimit b = gasLimit a" and "callDepth b = callDepth a"
proof -
  from assms have h: "a\<lparr>to_m := to_m b\<rparr> = b" by (simp add: sameButTo_def)
  have "type_m (a\<lparr>to_m := to_m b\<rparr>) = type_m a" by simp
  then show "type_m b = type_m a" by (simp only: h)
  have "from_m (a\<lparr>to_m := to_m b\<rparr>) = from_m a" by simp
  then show "from_m b = from_m a" by (simp only: h)
  have "delegatedCall (a\<lparr>to_m := to_m b\<rparr>) = delegatedCall a" by simp
  then show "delegatedCall b = delegatedCall a" by (simp only: h)
  have "status (a\<lparr>to_m := to_m b\<rparr>) = status a" by simp
  then show "status b = status a" by (simp only: h)
  have "error_m (a\<lparr>to_m := to_m b\<rparr>) = error_m a" by simp
  then show "error_m b = error_m a" by (simp only: h)
  have "value_m (a\<lparr>to_m := to_m b\<rparr>) = value_m a" by simp
  then show "value_m b = value_m a" by (simp only: h)
  have "payload (a\<lparr>to_m := to_m b\<rparr>) = payload a" by simp
  then show "payload b = payload a" by (simp only: h)
  have "gasUsed (a\<lparr>to_m := to_m b\<rparr>) = gasUsed a" by simp
  then show "gasUsed b = gasUsed a" by (simp only: h)
  have "id_m (a\<lparr>to_m := to_m b\<rparr>) = id_m a" by simp
  then show "id_m b = id_m a" by (simp only: h)
  have "parentId (a\<lparr>to_m := to_m b\<rparr>) = parentId a" by simp
  then show "parentId b = parentId a" by (simp only: h)
  have "gasLimit (a\<lparr>to_m := to_m b\<rparr>) = gasLimit a" by simp
  then show "gasLimit b = gasLimit a" by (simp only: h)
  have "callDepth (a\<lparr>to_m := to_m b\<rparr>) = callDepth a" by simp
  then show "callDepth b = callDepth a" by (simp only: h)
qed

lemma storeShape_step:
  assumes loopInv: "loopInv messages i s" and i: "i < length messages"
    and st: "step options s i = Inr s'"
  shows "storeShape messages (Suc i) s'"
proof (cases "type_m (store s ! i) = Value \<and> previousMessage s \<noteq> None")
  case False
  with st have "store s' = store s" by (auto simp: step_store split: option.splits)
  with loopInv show ?thesis by (auto simp: loopInv_def storeShape_def)
next
  case True
  then obtain p where p: "previousMessage s = Some p" by auto
  with True st have s': "store s' = (store s)[p := (store s ! p)\<lparr>to_m := from_m (store s ! i)\<rparr>]"
    by (simp add: step_store)
  from loopInv p have pi: "p < i" and pv: "type_m (messages ! p) \<noteq> Value"
    by (auto simp: loopInv_def refsOk_def)
  from loopInv have len: "length (store s) = length messages"
    and sh: "\<forall>j < length messages. sameButTo (messages ! j) (store s ! j)"
    and un: "\<forall>j < length messages. i \<le> j \<or> type_m (messages ! j) = Value \<longrightarrow> store s ! j = messages ! j"
    by (auto simp: loopInv_def storeShape_def)
  have 1: "length (store s') = length messages" using s' len by simp
  have 2: "sameButTo (messages ! j) (store s' ! j)" if j: "j < length messages" for j
  proof (cases "j = p")
    case True
    from sh j have "sameButTo (messages ! j) (store s ! j)" by blast
    then have "sameButTo (messages ! j) ((store s ! j)\<lparr>to_m := from_m (store s ! i)\<rparr>)"
      by (rule sameButTo_update)
    with True j len show ?thesis by (simp add: s')
  next
    case False
    with sh j show ?thesis by (simp add: s')
  qed
  have 3: "store s' ! j = messages ! j"
    if j: "j < length messages" and c: "Suc i \<le> j \<or> type_m (messages ! j) = Value" for j
  proof -
    from c pi pv have "j \<noteq> p" by auto
    moreover from c have "i \<le> j \<or> type_m (messages ! j) = Value" by auto
    ultimately show ?thesis using un j by (auto simp: s')
  qed
  from 1 2 3 show ?thesis unfolding storeShape_def by blast
qed
lemma refsOk_step:
  assumes loopInv: "loopInv messages i s" and i: "i < length messages"
    and st: "step options s i = Inr s'"
  shows "refsOk messages (Suc i) s'"
proof -
  let ?stk = "contractCallStack s"
  let ?w = "fst (returnDetection (store s) ?stk (previousMessage s) (store s ! i))"
  from walk_take [of s i] obtain n where n: "?w = take n ?stk" by blast
  from loopInv have lt: "\<forall>c \<in> set ?stk. c < i" and so: "sorted_wrt (<) ?stk"
    by (auto simp: loopInv_def refsOk_def)
  from loopInv i have cur: "store s ! i = messages ! i" by (auto simp: loopInv_def storeShape_def)
  have wlt: "\<forall>c \<in> set ?w. c < i" using lt n by (auto dest: in_set_takeD)
  have wso: "sorted_wrt (<) ?w" using so n by (simp add: sorted_wrt_take)
  have blt: "\<forall>c \<in> set (butlast ?w). c < i" using wlt by (meson in_set_butlastD)
  have bso: "sorted_wrt (<) (butlast ?w)" using wso by (simp add: butlast_conv_take sorted_wrt_take)
  have stk': "contractCallStack s' =
     (if type_m (store s ! i) = Call \<or> type_m (store s ! i) = Create then ?w @ [i]
      else if type_m (store s ! i) = Selfdestruct then butlast ?w else ?w)"
    using st by (rule step_stack)
  have a: "\<forall>c \<in> set (contractCallStack s'). c < Suc i"
    using wlt blt stk' by (auto simp: less_Suc_eq)
  have b: "sorted_wrt (<) (contractCallStack s')"
    using wlt wso bso stk' by (auto simp: sorted_wrt_append)
  have c: "(case previousMessage s' of
            None \<Rightarrow> contractCallStack s' = []
          | Some p \<Rightarrow> p < Suc i \<and> type_m (messages ! p) \<noteq> Value
                     \<and> (p \<in> set (contractCallStack s') \<longrightarrow> last (contractCallStack s') = p))"
  proof (cases "type_m (store s ! i) = Value")
    case False
    with st have "previousMessage s' = Some i" by (simp add: step_prev)
    moreover from False cur have "type_m (messages ! i) \<noteq> Value" by simp
    moreover have "i \<in> set (contractCallStack s') \<longrightarrow> last (contractCallStack s') = i"
      using wlt blt stk' by (auto split: if_splits)
    ultimately show ?thesis by simp
  next
    case True
    with st have pr: "previousMessage s' = previousMessage s" by (simp add: step_prev)
    from True stk' have sw: "contractCallStack s' = ?w" by simp
    show ?thesis
    proof (cases "previousMessage s")
      case None
      with loopInv have "?stk = []" by (simp add: loopInv_def refsOk_def)
      with n sw pr None show ?thesis by simp
    next
      case (Some p)
      with loopInv have p: "p < i" "type_m (messages ! p) \<noteq> Value"
        and top: "p \<in> set ?stk \<longrightarrow> last ?stk = p"
        by (auto simp: loopInv_def refsOk_def)
      have "last ?w = p" if m: "p \<in> set ?w"
      proof -
        from m n have ps: "p \<in> set ?stk" by (auto dest: in_set_takeD)
        with top have l: "last ?stk = p" by simp
        from ps have ne: "?stk \<noteq> []" by auto
        from so have "distinct ?stk" by (rule sorted_less_distinct)
        from this ne have "length ?stk \<le> n"
          by (rule last_in_take) (use l m n in simp)
        with n l show ?thesis by simp
      qed
      with p pr sw Some show ?thesis by simp
    qed
  qed
  from a b c show ?thesis unfolding refsOk_def by blast
qed

lemma framesIntact_step:
  assumes loopInv: "loopInv messages i s" and i: "i < length messages"
    and st: "step options s i = Inr s'"
  shows "framesIntact messages s'"
proof -
  let ?stk = "contractCallStack s"
  let ?w = "fst (returnDetection (store s) ?stk (previousMessage s) (store s ! i))"
  from walk_take [of s i] obtain n where n: "?w = take n ?stk" by blast
  from loopInv have fr: "\<forall>c \<in> set ?stk. store s ! c = messages ! c
        \<and> (type_m (messages ! c) = Call \<or> type_m (messages ! c) = Create)"
    by (simp add: loopInv_def framesIntact_def)
  from loopInv have so: "sorted_wrt (<) ?stk" by (simp add: loopInv_def refsOk_def)
  from loopInv have len: "length (store s) = length messages" by (simp add: loopInv_def storeShape_def)
  from loopInv i have cur: "store s ! i = messages ! i" by (auto simp: loopInv_def storeShape_def)
  have stk': "contractCallStack s' =
     (if type_m (store s ! i) = Call \<or> type_m (store s ! i) = Create then ?w @ [i]
      else if type_m (store s ! i) = Selfdestruct then butlast ?w else ?w)"
    using st by (rule step_stack)
  show ?thesis
  proof (cases "type_m (store s ! i) = Value \<and> previousMessage s \<noteq> None")
    case False
    with st have same: "store s' = store s" by (auto simp: step_store split: option.splits)
    have "store s ! c = messages ! c \<and> (type_m (messages ! c) = Call \<or> type_m (messages ! c) = Create)"
      if "c \<in> set (contractCallStack s')" for c
    proof (cases "c = i \<and> (type_m (store s ! i) = Call \<or> type_m (store s ! i) = Create)")
      case True
      with cur show ?thesis by auto
    next
      case False
      with that stk' have "c \<in> set ?w" by (auto split: if_splits dest: in_set_butlastD)
      with n have "c \<in> set ?stk" by (auto dest: in_set_takeD)
      with fr show ?thesis by blast
    qed
    with same show ?thesis by (simp add: framesIntact_def)
  next
    case True
    then obtain p where p: "previousMessage s = Some p" by auto
    with True st have s': "store s' = (store s)[p := (store s ! p)\<lparr>to_m := from_m (store s ! i)\<rparr>]"
      by (simp add: step_store)
    from True stk' have sw: "contractCallStack s' = ?w" by simp
    from loopInv p have top: "p \<in> set ?stk \<longrightarrow> last ?stk = p" by (auto simp: loopInv_def refsOk_def)
    have "store s' ! c = messages ! c \<and> (type_m (messages ! c) = Call \<or> type_m (messages ! c) = Create)"
      if m: "c \<in> set ?w" for c
    proof -
      from m n have cs: "c \<in> set ?stk" by (auto dest: in_set_takeD)
      with fr have old: "store s ! c = messages ! c"
        and ty: "type_m (messages ! c) = Call \<or> type_m (messages ! c) = Create" by auto
      show ?thesis
      proof (cases "c = p")
        case False
        with old ty show ?thesis by (simp add: s')
      next
        case True
        with cs top have l: "last ?stk = p" by simp
        from cs have ne: "?stk \<noteq> []" by auto
        from so have "distinct ?stk" by (rule sorted_less_distinct)
        from this ne have "length ?stk \<le> n"
          by (rule last_in_take) (use l m n True in simp)
        with n have "length ?w = length ?stk" by simp
        with walk_pops [of s i] ne have "\<not> walkFires s i" by auto
        with p have "from_m (store s ! i) = to_m (store s ! p) \<or> type_m (store s ! p) = Delegatecall"
          by (auto simp: walkFires_def)
        moreover from True old ty have "type_m (store s ! p) \<noteq> Delegatecall" by auto
        ultimately have "(store s ! p)\<lparr>to_m := from_m (store s ! i)\<rparr> = store s ! p" by simp
        with s' have "store s' = store s" by simp
        with old ty show ?thesis by simp
      qed
    qed
    with sw show ?thesis by (simp add: framesIntact_def)
  qed
qed

lemma loopInv_step:
  assumes "loopInv messages i s" and "i < length messages" and "step options s i = Inr s'"
  shows "loopInv messages (Suc i) s'"
  using storeShape_step [OF assms] refsOk_step [OF assms] framesIntact_step [OF assms]
  by (simp add: loopInv_def)

lemma loopInv_init: "loopInv messages 0 (init messages)"
  by (simp add: loopInv_def init_def storeShape_def refsOk_def framesIntact_def sameButTo_refl)

section \<open>Lemmas about the whole loop\<close>

lemma loop_append:
  "loop options s (is @ js) =
     (case loop options s is of Inl e \<Rightarrow> Inl e | Inr s' \<Rightarrow> loop options s' js)"
  by (induction "is" arbitrary: s) (auto split: sum.splits)

lemma loop_snoc_Inr:
  assumes "loop options s (is @ [i]) = Inr s'"
  obtains s1 where "loop options s is = Inr s1" and "step options s1 i = Inr s'"
  using assms by (auto simp: loop_append split: sum.splits)

lemma loop_upt_induct:
  assumes "loop options s [a..<b] = Inr s'" and "a \<le> b" and "P a s"
    and "\<And>i t t'. a \<le> i \<Longrightarrow> i < b \<Longrightarrow> P i t \<Longrightarrow> step options t i = Inr t' \<Longrightarrow> P (Suc i) t'"
  shows "P b s'"
  using assms
proof (induction b arbitrary: s')
  case 0
  then show ?case by simp
next
  case (Suc b)
  show ?case
  proof (cases "a = Suc b")
    case True
    with Suc.prems show ?thesis by simp
  next
    case False
    with Suc.prems have ab: "a \<le> b" by simp
    with Suc.prems have "loop options s ([a..<b] @ [b]) = Inr s'" by simp
    then obtain s1 where l: "loop options s [a..<b] = Inr s1" and st: "step options s1 b = Inr s'"
      by (rule loop_snoc_Inr)
    have "P b s1"
    proof (rule Suc.IH [OF l ab Suc.prems(3)])
      fix i t t'
      assume "a \<le> i" "i < b" "P i t" "step options t i = Inr t'"
      then show "P (Suc i) t'" using Suc.prems(4) [of i t t'] by simp
    qed
    with ab st show ?thesis using Suc.prems(4) [of b s1 s'] by simp
  qed
qed

lemma run_loopInv:
  assumes "run messages options = Inr s"
  shows "loopInv messages (length messages) s"
proof -
  from assms have l: "loop options (init messages) [0..<length messages] = Inr s"
    by (simp add: run_def)
  show ?thesis
  proof (rule loop_upt_induct [OF l, where P = "\<lambda>i t. i \<le> length messages \<and> loopInv messages i t",
        THEN conjunct2])
    show "0 \<le> length messages" by simp
    show "0 \<le> length messages \<and> loopInv messages 0 (init messages)" by (simp add: loopInv_init)
    fix i t t'
    assume "i < length messages" "i \<le> length messages \<and> loopInv messages i t"
      "step options t i = Inr t'"
    then show "Suc i \<le> length messages \<and> loopInv messages (Suc i) t'"
      using loopInv_step [of messages i t options t'] by simp
  qed
qed

lemma loop_total:
  assumes "params options \<noteq> Some True"
  shows "\<exists>s'. loop options s is = Inr s'"
proof (induction "is" arbitrary: s)
  case Nil
  show ?case by simp
next
  case (Cons i rest)
  from step_total [OF assms] obtain s1 where "step options s i = Inr s1" by blast
  with Cons [of s1] show ?case by simp
qed

text \<open>Without the \<open>params\<close> option nothing can raise: \<open>genMessages\<close> returns a text.\<close>

lemma genMessages_total:
  assumes "params options \<noteq> Some True"
  shows "\<exists>text. genMessages messages options = Inr text"
proof -
  from loop_total [OF assms] obtain s where "run messages options = Inr s"
    unfolding run_def by blast
  then show ?thesis by (simp add: genMessages_def genLines_def)
qed

section \<open>What the loop does to its input\<close>

lemma exampleMessage_fields [simp]:
  "type_m (exampleMessage t f x ok er dc) = t"
  "from_m (exampleMessage t f x ok er dc) = f"
  "to_m (exampleMessage t f x ok er dc) = x"
  "status (exampleMessage t f x ok er dc) = ok"
  "error_m (exampleMessage t f x ok er dc) = er"
  "delegatedCall (exampleMessage t f x ok er dc) = dc"
  "payload (exampleMessage t f x ok er dc) = None"
  "(exampleMessage t f x ok er dc)\<lparr>to_m := y\<rparr> = exampleMessage t f y ok er dc"
  by (simp_all add: exampleMessage_def)

lemma exampleMessage_eq [simp]:
  "exampleMessage t f x ok er dc = exampleMessage t' f' x' ok' er' dc'
     \<longleftrightarrow> t = t' \<and> f = f' \<and> x = x' \<and> ok = ok' \<and> er = er' \<and> dc = dc'"
  by (auto simp: exampleMessage_def)

lemma addr_distinct [simp]:
  "addrA \<noteq> addrB" "addrA \<noteq> addrC" "addrA \<noteq> addrD" "addrB \<noteq> addrA" "addrB \<noteq> addrC"
  "addrB \<noteq> addrD" "addrC \<noteq> addrA" "addrC \<noteq> addrB" "addrC \<noteq> addrD" "addrD \<noteq> addrA"
  "addrD \<noteq> addrB" "addrD \<noteq> addrC"
  by (simp_all add: addrA_def addrB_def addrC_def addrD_def)

lemmas step_eval =
  step_def Let_def returnDetection_def delegateCloseout_def genFunctionText_def genGasUsage_def
  genArrow_def genEndLifeline_def noOptions_def participantId_examples ethersText_example
  DelegateMessageColor_def

lemma lastNonValue_Some:
  assumes "lastNonValue messages b = Some p"
  shows "p < b \<and> type_m (messages ! p) \<noteq> Value
       \<and> (\<forall>l. p < l \<and> l < b \<longrightarrow> type_m (messages ! l) = Value)"
  using assms
proof (induction b)
  case 0
  then show ?case by simp
next
  case (Suc b)
  show ?case
  proof (cases "type_m (messages ! b) = Value")
    case True
    with Suc.prems have "lastNonValue messages b = Some p" by simp
    from Suc.IH [OF this] True show ?thesis by (auto simp: less_Suc_eq)
  next
    case False
    with Suc.prems have "p = b" by simp
    with False show ?thesis by auto
  qed
qed

lemma lastNonValue_ge:
  "k < b \<Longrightarrow> type_m (messages ! k) \<noteq> Value \<Longrightarrow> \<exists>p. lastNonValue messages b = Some p \<and> k \<le> p"
  by (induction b) (auto simp: less_Suc_eq)

lemma lastNonValue_run:
  assumes j: "j < b" and ty: "type_m (messages ! j) \<noteq> Value"
    and r: "\<forall>l. j < l \<and> l < b \<longrightarrow> type_m (messages ! l) = Value"
  shows "lastNonValue messages b = Some j"
proof -
  from lastNonValue_ge [OF j ty] obtain p where p: "lastNonValue messages b = Some p" and jp: "j \<le> p"
    by blast
  from lastNonValue_Some [OF p] have "p < b" "type_m (messages ! p) \<noteq> Value" by simp_all
  with r jp have "p = j" by (metis le_neq_implies_less)
  with p show ?thesis by simp
qed

lemma run_end:
  assumes "Suc j < b" and "type_m (messages ! Suc j) = Value"
  shows "\<exists>k. j < k \<and> k < b \<and> (\<forall>l \<le> k. j < l \<longrightarrow> type_m (messages ! l) = Value)
           \<and> (Suc k < b \<longrightarrow> type_m (messages ! Suc k) \<noteq> Value)"
  using assms
proof (induction b)
  case 0
  then show ?case by simp
next
  case (Suc b)
  show ?case
  proof (cases "Suc j = b")
    case True
    have "\<forall>l \<le> b. j < l \<longrightarrow> type_m (messages ! l) = Value"
    proof (intro allI impI)
      fix l assume "l \<le> b" "j < l"
      with True have "l = Suc j" by simp
      with Suc.prems(2) show "type_m (messages ! l) = Value" by simp
    qed
    with True have "j < b \<and> b < Suc b \<and> (\<forall>l \<le> b. j < l \<longrightarrow> type_m (messages ! l) = Value)
           \<and> (Suc b < Suc b \<longrightarrow> type_m (messages ! Suc b) \<noteq> Value)"
      by simp
    then show ?thesis by blast
  next
    case False
    with Suc.prems have "Suc j < b" by simp
    from Suc.IH [OF this Suc.prems(2)] obtain k where jk: "j < k" and kb: "k < b"
      and r: "\<forall>l \<le> k. j < l \<longrightarrow> type_m (messages ! l) = Value"
      and e: "Suc k < b \<longrightarrow> type_m (messages ! Suc k) \<noteq> Value"
      by blast
    show ?thesis
    proof (cases "Suc k = b \<and> type_m (messages ! b) = Value")
      case True
      have "\<forall>l \<le> b. j < l \<longrightarrow> type_m (messages ! l) = Value"
      proof (intro allI impI)
        fix l assume l: "l \<le> b" "j < l"
        show "type_m (messages ! l) = Value"
        proof (cases "l = b")
          case True
          with \<open>Suc k = b \<and> type_m (messages ! b) = Value\<close> show ?thesis by simp
        next
          case False
          with l \<open>Suc k = b \<and> type_m (messages ! b) = Value\<close> have "l \<le> k" by simp
          with r l show ?thesis by simp
        qed
      qed
      with jk kb have "j < b \<and> b < Suc b \<and> (\<forall>l \<le> b. j < l \<longrightarrow> type_m (messages ! l) = Value)
           \<and> (Suc b < Suc b \<longrightarrow> type_m (messages ! Suc b) \<noteq> Value)"
        by simp
      then show ?thesis by blast
    next
      case False
      have "Suc k < Suc b \<longrightarrow> type_m (messages ! Suc k) \<noteq> Value"
      proof
        assume "Suc k < Suc b"
        then have "Suc k < b \<or> Suc k = b" by auto
        with e False show "type_m (messages ! Suc k) \<noteq> Value" by auto
      qed
      with jk kb r have "j < k \<and> k < Suc b \<and> (\<forall>l \<le> k. j < l \<longrightarrow> type_m (messages ! l) = Value)
           \<and> (Suc k < Suc b \<longrightarrow> type_m (messages ! Suc k) \<noteq> Value)"
        by simp
      then show ?thesis by blast
    qed
  qed
qed

lemma written_step:
  assumes li: "loopInv messages b t" and b: "b < length messages"
    and w: "written messages b t" and st: "step options t b = Inr t'"
  shows "written messages (Suc b) t'"
proof -
  from li have len: "length (store t) = length messages"
    by (simp add: loopInv_def storeShape_def)
  from li b have cur: "store t ! b = messages ! b"
    by (auto simp: loopInv_def storeShape_def)
  from w have pv: "previousMessage t = lastNonValue messages b"
    by (simp add: written_def)
  have wr: "to_m (store t ! j) = from_m (messages ! k)"
    if "j < length messages" "k < b" "j < k" "type_m (messages ! j) \<noteq> Value"
      "\<forall>l \<le> k. j < l \<longrightarrow> type_m (messages ! l) = Value"
      "Suc k < b \<longrightarrow> type_m (messages ! Suc k) \<noteq> Value" for j k
    using w that unfolding written_def by blast
  have un: "store t ! j = messages ! j"
    if "j < length messages"
      "type_m (messages ! j) = Value \<or> b \<le> Suc j \<or> type_m (messages ! Suc j) \<noteq> Value" for j
    using w that unfolding written_def by blast
  show ?thesis
  proof (cases "type_m (messages ! b) = Value")
    case False
    with step_store [OF st] cur have s': "store t' = store t" by simp
    from False step_prev [OF st] cur have p': "previousMessage t' = Some b" by simp
    from p' False have 1: "previousMessage t' = lastNonValue messages (Suc b)" by simp
    have 2: "to_m (store t' ! j) = from_m (messages ! k)"
      if j: "j < length messages" and k: "k < Suc b" and jk: "j < k"
        and ty: "type_m (messages ! j) \<noteq> Value"
        and r: "\<forall>l \<le> k. j < l \<longrightarrow> type_m (messages ! l) = Value"
        and e: "Suc k < Suc b \<longrightarrow> type_m (messages ! Suc k) \<noteq> Value" for j k
    proof -
      from r jk have "type_m (messages ! k) = Value" by simp
      with False have "k \<noteq> b" by auto
      with k have kb: "k < b" by simp
      from e have "Suc k < b \<longrightarrow> type_m (messages ! Suc k) \<noteq> Value" by simp
      with j kb jk ty r show ?thesis unfolding s' by (intro wr)
    qed
    have 3: "store t' ! j = messages ! j"
      if j: "j < length messages"
        and d: "type_m (messages ! j) = Value \<or> Suc b \<le> Suc j \<or> type_m (messages ! Suc j) \<noteq> Value"
      for j
    proof -
      from d have "type_m (messages ! j) = Value \<or> b \<le> Suc j \<or> type_m (messages ! Suc j) \<noteq> Value"
        by auto
      with j show ?thesis unfolding s' by (intro un)
    qed
    from 1 2 3 show ?thesis unfolding written_def by blast
  next
    case True
    from True step_prev [OF st] cur pv
    have 1: "previousMessage t' = lastNonValue messages (Suc b)" by simp
    show ?thesis
    proof (cases "lastNonValue messages b")
      case None
      with step_store [OF st] True cur pv have s': "store t' = store t" by simp
      have allv: "type_m (messages ! l) = Value" if "l < b" for l
        using lastNonValue_ge [of l b messages] None that by auto
      have 2: "to_m (store t' ! j) = from_m (messages ! k)"
        if j: "j < length messages" and k: "k < Suc b" and jk: "j < k"
          and ty: "type_m (messages ! j) \<noteq> Value" for j k
      proof -
        from k jk have "j < b" by simp
        with allv ty show ?thesis by blast
      qed
      have 3: "store t' ! j = messages ! j" if j: "j < length messages" for j
      proof (cases "j < b")
        case True
        with allv have "type_m (messages ! j) = Value" by blast
        with j show ?thesis unfolding s' by (intro un) simp_all
      next
        case False
        then have "b \<le> Suc j" by simp
        with j show ?thesis unfolding s' by (intro un) simp_all
      qed
      from 1 2 3 show ?thesis unfolding written_def by blast
    next
      case (Some p)
      from lastNonValue_Some [OF Some] have pb: "p < b" and pt: "type_m (messages ! p) \<noteq> Value"
        by simp_all
      from step_store [OF st] True cur pv Some
      have s': "store t' = (store t)[p := (store t ! p)\<lparr>to_m := from_m (messages ! b)\<rparr>]"
        by simp
      from pb b len have pl: "p < length (store t)" by simp
      have 2: "to_m (store t' ! j) = from_m (messages ! k)"
        if j: "j < length messages" and k: "k < Suc b" and jk: "j < k"
          and ty: "type_m (messages ! j) \<noteq> Value"
          and r: "\<forall>l \<le> k. j < l \<longrightarrow> type_m (messages ! l) = Value"
          and e: "Suc k < Suc b \<longrightarrow> type_m (messages ! Suc k) \<noteq> Value" for j k
      proof (cases "k = b")
        case True
        with r have "\<forall>l. j < l \<and> l < b \<longrightarrow> type_m (messages ! l) = Value" by simp
        with jk \<open>k = b\<close> ty have "lastNonValue messages b = Some j"
          by (intro lastNonValue_run) simp_all
        with Some have "j = p" by simp
        with pl \<open>k = b\<close> show ?thesis by (simp add: s')
      next
        case False
        with k have kb: "k < b" by simp
        have "Suc k \<noteq> b"
        proof
          assume "Suc k = b"
          with e have "type_m (messages ! b) \<noteq> Value" by simp
          with True show False by simp
        qed
        with kb have skb: "Suc k < b" by simp
        with e have ne: "type_m (messages ! Suc k) \<noteq> Value" by simp
        from lastNonValue_ge [OF skb ne] Some have "Suc k \<le> p" by simp
        with jk have "j \<noteq> p" by simp
        then have "store t' ! j = store t ! j" by (simp add: s')
        moreover from ne have "Suc k < b \<longrightarrow> type_m (messages ! Suc k) \<noteq> Value" by simp
        with j kb jk ty r have "to_m (store t ! j) = from_m (messages ! k)" by (intro wr)
        ultimately show ?thesis by simp
      qed
      have 3: "store t' ! j = messages ! j"
        if j: "j < length messages"
          and d: "type_m (messages ! j) = Value \<or> Suc b \<le> Suc j
                  \<or> type_m (messages ! Suc j) \<noteq> Value"
        for j
      proof -
        have np: "j \<noteq> p"
        proof
          assume jp: "j = p"
          with pt pb d have ne: "type_m (messages ! Suc j) \<noteq> Value" by auto
          with True have "Suc j \<noteq> b" by auto
          with jp pb have sj: "Suc j < b" by simp
          from lastNonValue_ge [OF sj ne] Some have "Suc j \<le> p" by simp
          with jp show False by simp
        qed
        from d have "type_m (messages ! j) = Value \<or> b \<le> Suc j
                     \<or> type_m (messages ! Suc j) \<noteq> Value"
          by auto
        with j have "store t ! j = messages ! j" by (intro un)
        with np show ?thesis by (simp add: s')
      qed
      from 1 2 3 show ?thesis unfolding written_def by blast
    qed
  qed
qed

lemma written_init: "written messages 0 (init messages)"
  by (simp add: written_def init_def)

lemma loop_prefix_written:
  assumes l: "loop options (init messages) [0..<b] = Inr t" and b: "b \<le> length messages"
  shows "loopInv messages b t \<and> written messages b t"
proof (rule loop_upt_induct [OF l, where P = "\<lambda>i t. loopInv messages i t \<and> written messages i t"])
  show "0 \<le> b" by simp
  show "loopInv messages 0 (init messages) \<and> written messages 0 (init messages)"
    by (simp add: loopInv_init written_init)
  fix i u u'
  assume i: "i < b" and P: "loopInv messages i u \<and> written messages i u"
    and st: "step options u i = Inr u'"
  from i b have il: "i < length messages" by simp
  from P il st have "loopInv messages (Suc i) u'"
    using loopInv_step [of messages i u options u'] by simp
  moreover from P il st have "written messages (Suc i) u'"
    using written_step [of messages i u options u'] by simp
  ultimately show "loopInv messages (Suc i) u' \<and> written messages (Suc i) u'" by simp
qed

lemma progress_loop:
  assumes "progress options s is = (n, t)"
  shows "n \<le> length is \<and> loop options s (take n is) = Inr t
       \<and> (\<forall>r. loop options s is = Inr r \<longrightarrow> n = length is \<and> r = t)
       \<and> (\<forall>e. loop options s is = Inl e \<longrightarrow> n < length is \<and> step options t (is ! n) = Inl e)"
  using assms
proof (induction "is" arbitrary: s n t)
  case Nil
  then show ?case by simp
next
  case (Cons i rest)
  show ?case
  proof (cases "step options s i")
    case (Inl e)
    with Cons.prems show ?thesis by simp
  next
    case (Inr s1)
    obtain m u where pr: "progress options s1 rest = (m, u)" by (cases "progress options s1 rest")
    with Cons.prems Inr have n: "n = Suc m" and t: "t = u" by simp_all
    from Cons.IH [OF pr] Inr show ?thesis by (simp add: n t)
  qed
qed

lemma progress_upt:
  assumes "progress options s [0..<m] = (b, t)"
  shows "b \<le> m \<and> loop options s [0..<b] = Inr t
       \<and> (\<forall>r. loop options s [0..<m] = Inr r \<longrightarrow> b = m \<and> r = t)
       \<and> (\<forall>e. loop options s [0..<m] = Inl e \<longrightarrow> b < m \<and> step options t b = Inl e)"
proof -
  from progress_loop [OF assms]
  have 1: "b \<le> length [0..<m]" and 2: "loop options s (take b [0..<m]) = Inr t"
    and 3: "\<forall>r. loop options s [0..<m] = Inr r \<longrightarrow> b = length [0..<m] \<and> r = t"
    and 4: "\<forall>e. loop options s [0..<m] = Inl e
              \<longrightarrow> b < length [0..<m] \<and> step options t ([0..<m] ! b) = Inl e"
    by blast+
  from 1 have bm: "b \<le> m" by simp
  then have "take b [0..<m] = [0..<b]" by simp
  with 2 have lp: "loop options s [0..<b] = Inr t" by simp
  from 3 have ok: "\<forall>r. loop options s [0..<m] = Inr r \<longrightarrow> b = m \<and> r = t" by simp
  from 4 have ex: "\<forall>e. loop options s [0..<m] = Inl e \<longrightarrow> b < m \<and> step options t b = Inl e"
    by auto
  from bm lp ok ex show ?thesis by blast
qed

lemma value_step:
  fixes s :: state
  assumes "type_m (store s ! i) = Value"
  shows "\<exists>s'. step options s i = Inr s'
          \<and> store s' = (case previousMessage s of None \<Rightarrow> store s
               | Some p \<Rightarrow> (store s)[p := (store s ! p)\<lparr>to_m := from_m (store s ! i)\<rparr>])
          \<and> previousMessage s' = previousMessage s"
  using assms by (simp add: step_def Let_def)

text \<open>
  C5 (as amended). \<open>genMessages\<close> writes to its input, and only in this way: the
  iteration of a \<open>Value\<close> message never raises and assigns the message's \<open>from\<close>
  to the \<open>to\<close> of the stored previous message, an element of the input array (it
  assigns nothing when there is none), and leaves the reference where it is; every
  other iteration that completes leaves the array alone and makes its message the
  previous one. So when the loop is over or an iteration raises, after \<open>b\<close>
  iterations, the previous message is the last of the first \<open>b\<close> messages that is
  no \<open>Value\<close> message, and the array the caller is left with has the length of the
  input and differs from it in \<open>to\<close> fields only, exactly as follows. A message that
  is no \<open>Value\<close> message and is followed by \<open>Value\<close> messages has as its \<open>to\<close> the
  \<open>from\<close> of the last of these (the last processed, if the loop stopped among them);
  a \<open>Value\<close> message, and a message not followed by a processed \<open>Value\<close> message, is
  as it was. An input without \<open>Value\<close> messages is left as it was.
\<close>

theorem input_written_only_at_to:
  fixes s :: state
  shows "(type_m (store s ! i) = Value \<longrightarrow>
           (\<exists>s'. step options s i = Inr s'
              \<and> store s' = (case previousMessage s of None \<Rightarrow> store s
                   | Some p \<Rightarrow> (store s)[p := (store s ! p)\<lparr>to_m := from_m (store s ! i)\<rparr>])
              \<and> previousMessage s' = previousMessage s))
     \<and> (type_m (store s ! i) \<noteq> Value \<and> step options s i = Inr s' \<longrightarrow>
           store s' = store s \<and> previousMessage s' = Some i)
     \<and> (progress options (init messages) [0..<length messages] = (b, t) \<longrightarrow>
           b \<le> length messages
           \<and> loop options (init messages) [0..<b] = Inr t
           \<and> (\<forall>r. run messages options = Inr r \<longrightarrow> b = length messages \<and> r = t)
           \<and> (\<forall>e. run messages options = Inl e \<longrightarrow> b < length messages \<and> step options t b = Inl e)
           \<and> inputAfter messages options = store t
           \<and> previousMessage t = lastNonValue messages b
           \<and> length (store t) = length messages
           \<and> (\<forall>j < length messages. (messages ! j)\<lparr>to_m := to_m (store t ! j)\<rparr> = store t ! j)
           \<and> (\<forall>j < length messages. \<forall>k < b.
                 j < k \<and> type_m (messages ! j) \<noteq> Value
                 \<and> (\<forall>l \<le> k. j < l \<longrightarrow> type_m (messages ! l) = Value)
                 \<and> (Suc k < b \<longrightarrow> type_m (messages ! Suc k) \<noteq> Value)
                 \<longrightarrow> to_m (store t ! j) = from_m (messages ! k))
           \<and> (\<forall>j < length messages.
                 type_m (messages ! j) = Value \<or> b \<le> Suc j \<or> type_m (messages ! Suc j) \<noteq> Value
                 \<longrightarrow> store t ! j = messages ! j)
           \<and> (\<forall>j < length messages. type_m (messages ! j) = Value \<longrightarrow> store t ! j = messages ! j)
           \<and> (\<forall>j < length messages. store t ! j \<noteq> messages ! j \<longrightarrow>
                 (\<exists>k. j < k \<and> k < b \<and> k < length messages \<and> type_m (messages ! k) = Value
                      \<and> type_m (messages ! j) \<noteq> Value
                      \<and> (\<forall>l \<le> k. j < l \<longrightarrow> type_m (messages ! l) = Value)
                      \<and> to_m (store t ! j) = from_m (messages ! k)))
           \<and> ((\<forall>m \<in> set messages. type_m m \<noteq> Value) \<longrightarrow> store t = messages))"
proof (intro conjI impI)
  assume "type_m (store s ! i) = Value"
  then show "\<exists>s'. step options s i = Inr s'
              \<and> store s' = (case previousMessage s of None \<Rightarrow> store s
                   | Some p \<Rightarrow> (store s)[p := (store s ! p)\<lparr>to_m := from_m (store s ! i)\<rparr>])
              \<and> previousMessage s' = previousMessage s"
    by (rule value_step)
next
  assume a: "type_m (store s ! i) \<noteq> Value \<and> step options s i = Inr s'"
  then have st: "step options s i = Inr s'" and ty: "type_m (store s ! i) \<noteq> Value" by blast+
  from step_store [OF st] ty show "store s' = store s" by simp
  from step_prev [OF st] ty show "previousMessage s' = Some i" by simp
next
  assume pr: "progress options (init messages) [0..<length messages] = (b, t)"
  from progress_upt [OF pr]
  have b: "b \<le> length messages" and l: "loop options (init messages) [0..<b] = Inr t"
    and ok: "\<forall>r. loop options (init messages) [0..<length messages] = Inr r
               \<longrightarrow> b = length messages \<and> r = t"
    and ex: "\<forall>e. loop options (init messages) [0..<length messages] = Inl e
               \<longrightarrow> b < length messages \<and> step options t b = Inl e"
    by blast+
  from loop_prefix_written [OF l b] have li: "loopInv messages b t" and w: "written messages b t"
    by blast+
  from li have len: "length (store t) = length messages"
    and sh: "\<forall>j < length messages. sameButTo (messages ! j) (store t ! j)"
    by (auto simp: loopInv_def storeShape_def)
  have wr: "to_m (store t ! j) = from_m (messages ! k)"
    if "j < length messages" "k < b" "j < k" "type_m (messages ! j) \<noteq> Value"
      "\<forall>l \<le> k. j < l \<longrightarrow> type_m (messages ! l) = Value"
      "Suc k < b \<longrightarrow> type_m (messages ! Suc k) \<noteq> Value" for j k
    using w that unfolding written_def by blast
  have un: "store t ! j = messages ! j"
    if "j < length messages"
      "type_m (messages ! j) = Value \<or> b \<le> Suc j \<or> type_m (messages ! Suc j) \<noteq> Value" for j
    using w that unfolding written_def by blast
  show "b \<le> length messages" by (rule b)
  show "loop options (init messages) [0..<b] = Inr t" by (rule l)
  from ok show "\<forall>r. run messages options = Inr r \<longrightarrow> b = length messages \<and> r = t"
    by (simp add: run_def)
  from ex show "\<forall>e. run messages options = Inl e \<longrightarrow> b < length messages \<and> step options t b = Inl e"
    by (simp add: run_def)
  from pr show "inputAfter messages options = store t" by (simp add: inputAfter_def)
  from w show "previousMessage t = lastNonValue messages b" by (simp add: written_def)
  show "length (store t) = length messages" by (rule len)
  from sh show "\<forall>j < length messages. (messages ! j)\<lparr>to_m := to_m (store t ! j)\<rparr> = store t ! j"
    by (simp add: sameButTo_def)
  from w show "\<forall>j < length messages. \<forall>k < b.
                 j < k \<and> type_m (messages ! j) \<noteq> Value
                 \<and> (\<forall>l \<le> k. j < l \<longrightarrow> type_m (messages ! l) = Value)
                 \<and> (Suc k < b \<longrightarrow> type_m (messages ! Suc k) \<noteq> Value)
                 \<longrightarrow> to_m (store t ! j) = from_m (messages ! k)"
    unfolding written_def by blast
  from w show "\<forall>j < length messages.
                 type_m (messages ! j) = Value \<or> b \<le> Suc j \<or> type_m (messages ! Suc j) \<noteq> Value
                 \<longrightarrow> store t ! j = messages ! j"
    unfolding written_def by blast
  from un show "\<forall>j < length messages. type_m (messages ! j) = Value \<longrightarrow> store t ! j = messages ! j"
    by blast
  show "\<forall>j < length messages. store t ! j \<noteq> messages ! j \<longrightarrow>
                 (\<exists>k. j < k \<and> k < b \<and> k < length messages \<and> type_m (messages ! k) = Value
                      \<and> type_m (messages ! j) \<noteq> Value
                      \<and> (\<forall>l \<le> k. j < l \<longrightarrow> type_m (messages ! l) = Value)
                      \<and> to_m (store t ! j) = from_m (messages ! k))"
  proof (intro allI impI)
    fix j assume j: "j < length messages" and ne: "store t ! j \<noteq> messages ! j"
    from un [OF j] ne
    have "\<not> (type_m (messages ! j) = Value \<or> b \<le> Suc j \<or> type_m (messages ! Suc j) \<noteq> Value)"
      by blast
    then have ty: "type_m (messages ! j) \<noteq> Value" and sj: "Suc j < b"
      and tv: "type_m (messages ! Suc j) = Value"
      by simp_all
    from run_end [OF sj tv] obtain k where jk: "j < k" and kb: "k < b"
      and r: "\<forall>l \<le> k. j < l \<longrightarrow> type_m (messages ! l) = Value"
      and e: "Suc k < b \<longrightarrow> type_m (messages ! Suc k) \<noteq> Value"
      by blast
    from j kb jk ty r e have "to_m (store t ! j) = from_m (messages ! k)" by (rule wr)
    moreover from r jk have "type_m (messages ! k) = Value" by simp
    moreover from kb b have "k < length messages" by simp
    ultimately show "\<exists>k. j < k \<and> k < b \<and> k < length messages \<and> type_m (messages ! k) = Value
                      \<and> type_m (messages ! j) \<noteq> Value
                      \<and> (\<forall>l \<le> k. j < l \<longrightarrow> type_m (messages ! l) = Value)
                      \<and> to_m (store t ! j) = from_m (messages ! k)"
      using jk kb ty r by blast
  qed
  assume nv: "\<forall>m \<in> set messages. type_m m \<noteq> Value"
  show "store t = messages"
  proof (rule nth_equalityI)
    show "length (store t) = length messages" by (rule len)
    fix j assume "j < length (store t)"
    with len have j: "j < length messages" by simp
    have "b \<le> Suc j \<or> type_m (messages ! Suc j) \<noteq> Value"
    proof (cases "Suc j < length messages")
      case True
      with nv show ?thesis by simp
    next
      case False
      with b show ?thesis by simp
    qed
    with j show "store t ! j = messages ! j" by (intro un) simp_all
  qed
qed

theorem input_written_only_at_to_witness:
  "progress noOptions (init c5_messages) [0..<length c5_messages] = (2, c5_final)
   \<and> run c5_messages noOptions = Inr c5_final
   \<and> inputAfter c5_messages noOptions = store c5_final
   \<and> length (store c5_final) = length c5_messages
   \<and> store c5_final ! 1 = c5_messages ! 1
   \<and> to_m (store c5_final ! 0) = from_m (c5_messages ! 1)
   \<and> (c5_messages ! 0)\<lparr>to_m := addrA\<rparr> = store c5_final ! 0
   \<and> progress c5_params (init c5_raising) [0..<length c5_raising] = (2, c5_raised)
   \<and> run c5_raising c5_params = Inl (TypeError ''Cannot read property substr of undefined'')
   \<and> inputAfter c5_raising c5_params = store c5_raised
   \<and> to_m (c5_raising ! 0) = addrB
   \<and> to_m (store c5_raised ! 0) = from_m (c5_raising ! 1)
   \<and> from_m (c5_raising ! 1) = addrA"
proof -
  have p: "progress noOptions (init c5_messages) [0..<length c5_messages] = (2, c5_final)"
    by (simp add: init_def c5_messages_def c5_final_def upt_rec step_eval)
  have r: "run c5_messages noOptions = Inr c5_final"
    by (simp add: run_def init_def c5_messages_def c5_final_def upt_rec step_eval)
  have a: "store c5_final ! 1 = c5_messages ! 1"
    by (simp add: c5_messages_def c5_final_def)
  have c: "(c5_messages ! 0)\<lparr>to_m := addrA\<rparr> = store c5_final ! 0"
    by (simp add: c5_messages_def c5_final_def)
  have ty: "type_m (c5_messages ! 0) \<noteq> Value"
    by (simp add: c5_messages_def)
  have tv: "type_m (c5_messages ! 1) = Value"
    by (simp add: c5_messages_def)
  have l: "0 < length c5_messages" by (simp add: c5_messages_def)
  note all = input_written_only_at_to [where messages = c5_messages and options = noOptions
      and b = 2 and t = c5_final and s = "init c5_messages" and i = 1,
      THEN conjunct2, THEN conjunct2, THEN mp, OF p]
  from all have ia: "inputAfter c5_messages noOptions = store c5_final"
    by (elim conjE)
  from all have len: "length (store c5_final) = length c5_messages"
    by (elim conjE)
  from all have wr: "\<forall>j < length c5_messages. \<forall>k < 2.
                 j < k \<and> type_m (c5_messages ! j) \<noteq> Value
                 \<and> (\<forall>l \<le> k. j < l \<longrightarrow> type_m (c5_messages ! l) = Value)
                 \<and> (Suc k < 2 \<longrightarrow> type_m (c5_messages ! Suc k) \<noteq> Value)
                 \<longrightarrow> to_m (store c5_final ! j) = from_m (c5_messages ! k)"
    by (elim conjE)
  have rn: "\<forall>l \<le> 1. 0 < l \<longrightarrow> type_m (c5_messages ! l) = Value"
  proof (intro allI impI)
    fix l :: nat assume "l \<le> 1" "0 < l"
    then have "l = 1" by simp
    with tv show "type_m (c5_messages ! l) = Value" by simp
  qed
  have "(0::nat) < 1 \<and> type_m (c5_messages ! 0) \<noteq> Value
        \<and> (\<forall>l \<le> 1. 0 < l \<longrightarrow> type_m (c5_messages ! l) = Value)
        \<and> (Suc 1 < 2 \<longrightarrow> type_m (c5_messages ! Suc 1) \<noteq> Value)"
    using ty rn by simp
  with wr [rule_format, of 0 1] l
  have b: "to_m (store c5_final ! 0) = from_m (c5_messages ! 1)"
    by simp
  have p': "progress c5_params (init c5_raising) [0..<length c5_raising] = (2, c5_raised)"
    by (simp add: init_def c5_raising_def c5_raised_def c5_params_def upt_rec step_def Let_def
        returnDetection_def delegateCloseout_def genFunctionText_def genGasUsage_def genArrow_def
        genEndLifeline_def genParams_def participantId_examples ethersText_example)
  have r': "run c5_raising c5_params = Inl (TypeError ''Cannot read property substr of undefined'')"
    by (simp add: run_def init_def c5_raising_def c5_params_def upt_rec step_def Let_def
        returnDetection_def delegateCloseout_def genFunctionText_def genGasUsage_def genArrow_def
        genEndLifeline_def genParams_def participantId_examples ethersText_example)
  have ia': "inputAfter c5_raising c5_params = store c5_raised"
    unfolding inputAfter_def p' by simp
  have x: "to_m (c5_raising ! 0) = addrB"
    by (simp add: c5_raising_def)
  have y: "to_m (store c5_raised ! 0) = from_m (c5_raising ! 1)"
    by (simp add: c5_raising_def c5_raised_def)
  have f: "from_m (c5_raising ! 1) = addrA"
    by (simp add: c5_raising_def)
  show ?thesis
    by (intro conjI p r ia len a b c p' r' ia' x y f)
qed

text \<open>
  After a call from A to B and a value transfer from A, the first element of the
  input array has A as its \<open>to\<close>.
\<close>

theorem input_immutability_counterexample:
  "run c5_messages noOptions = Inr c5_final
   \<and> to_m (c5_messages ! 0) = addrB \<and> to_m (store c5_final ! 0) = addrA
   \<and> store c5_final \<noteq> c5_messages"
  by (simp add: run_def init_def c5_messages_def c5_final_def upt_rec step_eval)

section \<open>Drain\<close>

lemma closes_in_order:
  "filter isFrameClose (concat (map (\<lambda>c. genEndLifeline (st ! c)) cs))
     = map (\<lambda>c. hd (genEndLifeline (st ! c))) cs"
  by (induction cs) (auto simp: genEndLifeline_def split: option.splits)

lemma drain_input:
  assumes "framesIntact messages s"
  shows "drain s = concat (map (\<lambda>c. genEndLifeline (messages ! c)) (rev (contractCallStack s)))"
proof -
  from assms have "\<forall>c \<in> set (rev (contractCallStack s)). store s ! c = messages ! c"
    by (simp add: framesIntact_def)
  then have "map (\<lambda>c. genEndLifeline (store s ! c)) (rev (contractCallStack s))
           = map (\<lambda>c. genEndLifeline (messages ! c)) (rev (contractCallStack s))"
    by (intro map_cong) simp_all
  then show ?thesis by (simp only: drain_def)
qed

text \<open>
  C3. When \<open>genMessages\<close> returns, its lines are those of the loop followed by
  the closes of the frames left on the stack, from the top of the stack down: each
  of them is closed once, by the close rule applied to the message that opened it, as
  it was in the input. The stack holds distinct messages in the order they were
  pushed in (the order of the input), all of them calls or creates of the input.
\<close>

theorem drain_completeness:
  assumes "genLines messages options = Inr ls"
  shows "\<exists>s. run messages options = Inr s
     \<and> ls = plantUml s
            @ concat (map (\<lambda>c. genEndLifeline (messages ! c)) (rev (contractCallStack s)))
     \<and> filter isFrameClose
          (concat (map (\<lambda>c. genEndLifeline (messages ! c)) (rev (contractCallStack s))))
        = map (\<lambda>c. hd (genEndLifeline (messages ! c))) (rev (contractCallStack s))
     \<and> length (filter isFrameClose
          (concat (map (\<lambda>c. genEndLifeline (messages ! c)) (rev (contractCallStack s)))))
        = length (contractCallStack s)
     \<and> sorted_wrt (<) (contractCallStack s)
     \<and> distinct (contractCallStack s)
     \<and> (\<forall>c \<in> set (contractCallStack s).
           c < length messages \<and> (type_m (messages ! c) = Call \<or> type_m (messages ! c) = Create))"
proof -
  from assms obtain s where r: "run messages options = Inr s" and ls: "ls = plantUml s @ drain s"
    by (auto simp: genLines_def split: sum.splits)
  from run_loopInv [OF r] have fi: "framesIntact messages s" and ro: "refsOk messages (length messages) s"
    by (simp_all add: loopInv_def)
  from ro have so: "sorted_wrt (<) (contractCallStack s)"
    and lt: "\<forall>c \<in> set (contractCallStack s). c < length messages"
    by (simp_all add: refsOk_def)
  from so have di: "distinct (contractCallStack s)" by (rule sorted_less_distinct)
  from fi have ty: "\<forall>c \<in> set (contractCallStack s).
       type_m (messages ! c) = Call \<or> type_m (messages ! c) = Create"
    by (simp add: framesIntact_def)
  from ls drain_input [OF fi]
  have "ls = plantUml s
            @ concat (map (\<lambda>c. genEndLifeline (messages ! c)) (rev (contractCallStack s)))"
    by simp
  with r so di lt ty show ?thesis
    by (auto simp: closes_in_order intro!: exI [of _ s])
qed

theorem drain_completeness_witness:
  "genLines c3_messages noOptions =
     Inr (plantUml c3_final @ [Return, Destroy ''CCCCcccc'', Note ''CCCCcccc'' ''revert'', Return])
   \<and> run c3_messages noOptions = Inr c3_final
   \<and> contractCallStack c3_final = [0, 1, 2]
   \<and> concat (map (\<lambda>c. genEndLifeline (c3_messages ! c)) (rev (contractCallStack c3_final)))
       = [Return, Destroy ''CCCCcccc'', Note ''CCCCcccc'' ''revert'', Return]"
proof -
  have r: "run c3_messages noOptions = Inr c3_final"
    by (simp add: run_def init_def c3_messages_def c3_final_def upt_rec step_eval)
  have d: "concat (map (\<lambda>c. genEndLifeline (c3_messages ! c)) (rev (contractCallStack c3_final)))
       = [Return, Destroy ''CCCCcccc'', Note ''CCCCcccc'' ''revert'', Return]"
    by (simp add: c3_messages_def c3_final_def genEndLifeline_def participantId_examples)
  have g: "genLines c3_messages noOptions =
     Inr (plantUml c3_final @ [Return, Destroy ''CCCCcccc'', Note ''CCCCcccc'' ''revert'', Return])"
    using d by (simp add: genLines_def r drain_def c3_final_def)
  have k: "contractCallStack c3_final = [0, 1, 2]" by (simp add: c3_final_def)
  from drain_completeness [OF g] r d k show ?thesis using g by blast
qed

section \<open>Activations and closes\<close>

lemma step_out:
  "step options s i = Inr s' \<Longrightarrow>
   \<exists>txt. plantUml s' = plantUml s
       @ snd (returnDetection (store s) (contractCallStack s) (previousMessage s) (store s ! i))
       @ delegateCloseout (store s) (previousMessage s)
       @ dispatchLines options (store s ! i) txt"
  by (auto simp: step_def Let_def dispatchLines_def split: if_splits sum.splits)





lemma delegateCloseout_isLast:
  "delegateCloseout st (Some p) = (if isLast (st ! p) then [DelegateReturn] else [])"
  by (simp add: delegateCloseout_def isLast_def split: option.splits)


lemma genEndLifeline_other_counts:
  "filter isDelegateReturn (genEndLifeline m) = []"
  "filter isDelegateActivation (genEndLifeline m) = []"
  by (auto simp: genEndLifeline_def split: option.splits)

lemma frames_other_counts:
  "filter isDelegateReturn (concat (map (\<lambda>c. genEndLifeline (st ! c)) cs)) = []"
  "filter isDelegateActivation (concat (map (\<lambda>c. genEndLifeline (st ! c)) cs)) = []"
  by (induction cs) (simp_all add: genEndLifeline_other_counts)

lemma walk_other_counts:
  fixes s :: state and i :: nat
  shows "filter isDelegateReturn
           (snd (returnDetection (store s) (contractCallStack s) (previousMessage s) (store s ! i))) = []"
    and "filter isDelegateActivation
           (snd (returnDetection (store s) (contractCallStack s) (previousMessage s) (store s ! i))) = []"
  by (simp_all add: returnDetection_fires frames_other_counts)


lemma dispatchLines_other_counts:
  "filter isDelegateReturn (dispatchLines options m ftext) = []"
  "length (filter isDelegateActivation (dispatchLines options m ftext))
     = (if type_m m = Delegatecall then 1 else 0)"
  by (simp_all add: dispatchLines_def)








section \<open>Delegate calls\<close>

lemma delegatecall_stack:
  fixes s :: state
  assumes "type_m (store s ! i) = Delegatecall" and "step options s i = Inr s'"
  shows "contractCallStack s' =
           fst (returnDetection (store s) (contractCallStack s) (previousMessage s) (store s ! i))"
    and "length (contractCallStack s') \<le> length (contractCallStack s)"
    and "\<not> walkFires s i \<Longrightarrow> contractCallStack s' = contractCallStack s"
proof -
  show 1: "contractCallStack s' =
           fst (returnDetection (store s) (contractCallStack s) (previousMessage s) (store s ! i))"
    using step_stack [OF assms(2)] assms(1) by simp
  from walk_take [of s i] 1 show "length (contractCallStack s') \<le> length (contractCallStack s)"
    by auto
  show "\<not> walkFires s i \<Longrightarrow> contractCallStack s' = contractCallStack s"
    using 1 by (simp add: returnDetection_fires)
qed

lemma filter_butlast:
  "xs \<noteq> [] \<Longrightarrow> \<not> P (last xs) \<Longrightarrow> filter P (butlast xs) = filter P xs"
  by (induction xs) auto

lemma delegateRun_step:
  assumes c: "type_m c = Call"
    and ds: "\<forall>d \<in> set ds. type_m d = Delegatecall"
    and hd: "ds \<noteq> [] \<longrightarrow> from_m (hd ds) = to_m c"
    and i: "i < length (c # ds)"
    and P: "delegateRun c ds i t"
    and st: "step options t i = Inr t'"
  shows "delegateRun c ds (Suc i) t'"
proof (cases i)
  case 0
  with P have t: "store t = c # ds" "contractCallStack t = []" "previousMessage t = None"
    "filter isFrameClose (plantUml t) = []" "filter isFrameActivation (plantUml t) = []"
    "filter isDelegateReturn (plantUml t) = []"
    by (simp_all add: delegateRun_def)
  from st 0 c t show ?thesis
    by (auto simp: step_def Let_def returnDetection_def delegateCloseout_def delegateRun_def
        split: sum.splits)
next
  case (Suc k)
  with P have t: "store t = c # ds" "contractCallStack t = [0]" "previousMessage t = Some k"
    "filter isFrameClose (plantUml t) = []" "length (filter isFrameActivation (plantUml t)) = 1"
    "length (filter isDelegateReturn (plantUml t)) = length (filter isLast (take k (c # ds)))"
    by (simp_all add: delegateRun_def)
  from i Suc have k: "k < length ds" by simp
  with ds have ty: "type_m (ds ! k) = Delegatecall" by simp
  have nofire: "from_m (ds ! k) = to_m ((c # ds) ! k) \<or> type_m ((c # ds) ! k) = Delegatecall"
  proof (cases k)
    case 0
    with k hd show ?thesis by (simp add: hd_conv_nth)
  next
    case (Suc j)
    with k ds show ?thesis by simp
  qed
  have tk: "take (Suc k) (c # ds) = take k (c # ds) @ [(c # ds) ! k]"
    using k by (simp add: take_Suc_conv_app_nth del: take_Suc_Cons)
  have w: "returnDetection (store t) (contractCallStack t) (previousMessage t) (store t ! i) = ([0], [])"
    using nofire t Suc by (auto simp: returnDetection_def)
  have d: "delegateCloseout (store t) (previousMessage t)
             = (if isLast ((c # ds) ! k) then [DelegateReturn] else [])"
    using t by (simp add: delegateCloseout_isLast)
  from st Suc ty t w d tk show ?thesis
    by (auto simp: step_def Let_def delegateRun_def simp del: take_Suc_Cons split: sum.splits)
qed

lemma delegateRun_final:
  assumes c: "type_m c = Call"
    and ds: "\<forall>d \<in> set ds. type_m d = Delegatecall"
    and hd: "ds \<noteq> [] \<longrightarrow> from_m (hd ds) = to_m c"
    and r: "run (c # ds) options = Inr s"
  shows "delegateRun c ds (Suc (length ds)) s"
proof -
  from r have l: "loop options (init (c # ds)) [0..<length (c # ds)] = Inr s"
    by (simp only: run_def)
  have "delegateRun c ds (length (c # ds)) s"
  proof (rule loop_upt_induct [OF l, where P = "delegateRun c ds"])
    show "0 \<le> length (c # ds)" by simp
    show "delegateRun c ds 0 (init (c # ds))" by (simp add: delegateRun_def init_def)
    fix i t t'
    assume "i < length (c # ds)" "delegateRun c ds i t" "step options t i = Inr t'"
    then show "delegateRun c ds (Suc i) t'" by (rule delegateRun_step [OF c ds hd])
  qed
  then show ?thesis by simp
qed

lemma delegatecall_lines:
  fixes s :: state
  assumes "type_m (store s ! i) = Delegatecall" and "step options s i = Inr s'"
  shows "store s' = store s"
    and "previousMessage s' = Some i"
    and "\<exists>ftext. genFunctionText (store s ! i) (params options) = Inr ftext
           \<and> plantUml s' = plantUml s
               @ snd (returnDetection (store s) (contractCallStack s) (previousMessage s) (store s ! i))
               @ delegateCloseout (store s) (previousMessage s)
               @ [CallArrow (participantId (from_m (store s ! i))) (genArrow (store s ! i))
                    (participantId (to_m (store s ! i))) ftext
                    (genGasUsage (store s ! i) (gas options)),
                  ActivateDelegate (participantId (to_m (store s ! i)))]"
  using assms by (auto simp: step_def Let_def split: sum.splits)

lemma delegate_arrow:
  "type_m m = Delegatecall \<Longrightarrow> delegatedCall m \<noteq> None \<Longrightarrow>
   genArrow m = ''-['' @ DelegateMessageColor @ '']>''"
  by (auto simp: genArrow_def)

lemma delegate_return_of_step:
  fixes s :: state
  assumes st: "step options s i = Inr s'"
  shows "\<exists>disp. plantUml s' = plantUml s
            @ snd (returnDetection (store s) (contractCallStack s) (previousMessage s) (store s ! i))
            @ (case previousMessage s of None \<Rightarrow> []
               | Some p \<Rightarrow> if isLast (store s ! p) then [DelegateReturn] else [])
            @ disp
          \<and> filter isDelegateReturn disp = []"
proof -
  from step_out [OF st] obtain ftext where
    out: "plantUml s' = plantUml s
       @ snd (returnDetection (store s) (contractCallStack s) (previousMessage s) (store s ! i))
       @ delegateCloseout (store s) (previousMessage s)
       @ dispatchLines options (store s ! i) ftext"
    by blast
  have d: "delegateCloseout (store s) (previousMessage s)
         = (case previousMessage s of None \<Rightarrow> []
            | Some p \<Rightarrow> if isLast (store s ! p) then [DelegateReturn] else [])"
    by (simp add: delegateCloseout_def isLast_def split: option.splits)
  have "filter isDelegateReturn (dispatchLines options (store s ! i) ftext) = []"
    by (rule dispatchLines_other_counts)
  with out d show ?thesis by auto
qed

lemma delegate_return_next:
  fixes s :: state
  assumes ty: "type_m (store s ! i) \<noteq> Value"
    and st: "step options s i = Inr s'"
    and st': "step options s' j = Inr s''"
  shows "\<exists>disp. plantUml s'' = plantUml s'
            @ snd (returnDetection (store s') (contractCallStack s') (Some i) (store s' ! j))
            @ (if isLast (store s ! i) then [DelegateReturn] else [])
            @ disp
          \<and> filter isDelegateReturn disp = []"
proof -
  from st ty have s: "store s' = store s" by (simp add: step_store)
  from st ty have p: "previousMessage s' = Some i" by (simp add: step_prev)
  from delegate_return_of_step [OF st'] show ?thesis unfolding p by (simp add: s)
qed

lemma count_delegate_returns_step:
  fixes s :: state
  assumes st: "step options s i = Inr s'"
  shows "length (filter isDelegateReturn (plantUml s'))
       = length (filter isDelegateReturn (plantUml s))
         + (case previousMessage s of None \<Rightarrow> 0
            | Some p \<Rightarrow> if isLast (store s ! p) then 1 else 0)"
proof -
  from delegate_return_of_step [OF st] obtain disp where
    out: "plantUml s' = plantUml s
            @ snd (returnDetection (store s) (contractCallStack s) (previousMessage s) (store s ! i))
            @ (case previousMessage s of None \<Rightarrow> []
               | Some p \<Rightarrow> if isLast (store s ! p) then [DelegateReturn] else [])
            @ disp"
    and d: "filter isDelegateReturn disp = []"
    by blast
  from walk_other_counts [of s i]
  have w: "filter isDelegateReturn
      (snd (returnDetection (store s) (contractCallStack s) (previousMessage s) (store s ! i))) = []"
    by simp
  show ?thesis unfolding out by (simp add: w d split: option.splits)
qed

lemma markers_step:
  assumes nv: "\<forall>m \<in> set messages. type_m m \<noteq> Value"
    and i: "i < length messages"
    and s: "store t = messages"
    and p: "previousMessage t = (if i = 0 then None else Some (i - 1))"
    and c: "length (filter isDelegateReturn (plantUml t))
              = length (filter isLast (take (i - 1) messages))"
    and st: "step options t i = Inr t'"
  shows "store t' = messages \<and> previousMessage t' = Some i
       \<and> length (filter isDelegateReturn (plantUml t'))
           = length (filter isLast (take i messages))"
proof -
  from nv i s have ty: "type_m (store t ! i) \<noteq> Value" by simp
  from st ty s have s': "store t' = messages" by (simp add: step_store)
  from st ty have p': "previousMessage t' = Some i" by (simp add: step_prev)
  have "length (filter isDelegateReturn (plantUml t')) = length (filter isLast (take i messages))"
  proof (cases i)
    case 0
    with count_delegate_returns_step [OF st] p c show ?thesis by simp
  next
    case (Suc k)
    with i have k: "k < length messages" by simp
    then have tk: "take (Suc k) messages = take k messages @ [messages ! k]"
      by (rule take_Suc_conv_app_nth)
    from count_delegate_returns_step [OF st] p c s Suc show ?thesis
      by (simp add: tk)
  qed
  with s' p' show ?thesis by simp
qed

lemma markers_run:
  assumes nv: "\<forall>m \<in> set messages. type_m m \<noteq> Value"
    and r: "run messages options = Inr s"
  shows "length (filter isDelegateReturn (plantUml s))
           = length (filter isLast (butlast messages))"
proof -
  from r have l: "loop options (init messages) [0..<length messages] = Inr s"
    by (simp add: run_def)
  let ?P = "\<lambda>i t. i \<le> length messages \<and> store t = messages
      \<and> previousMessage t = (if i = 0 then None else Some (i - 1))
      \<and> length (filter isDelegateReturn (plantUml t))
          = length (filter isLast (take (i - 1) messages))"
  have "?P (length messages) s"
  proof (rule loop_upt_induct [OF l, where P = ?P])
    show "0 \<le> length messages" by simp
    show "?P 0 (init messages)" by (simp add: init_def)
    fix i t t'
    assume "i < length messages" "?P i t" "step options t i = Inr t'"
    then show "?P (Suc i) t'"
      using markers_step [OF nv, of i t options t'] by simp
  qed
  then show ?thesis by (simp add: butlast_conv_take)
qed

text \<open>
  C4 (as amended). The iteration of a \<open>Delegatecall\<close> appends, after the closes of
  its return detection and the return owed to the previous message, the call arrow
  and the activation of the delegated lifeline, and nothing else; it leaves the
  store alone, becomes the previous message and pushes nothing: after it the stack
  is what its return detection left, never deeper than before, and the same when
  the walk does not run. The return from a delegated lifeline is never part of the
  iteration of the message that carries \<open>delegatedCall.last\<close>: every iteration
  appends, between the closes of its return detection and the lines of its own
  dispatch, one such return when the stored previous message carries the marker and
  none otherwise. So for a message that is no \<open>Value\<close> the iteration that follows
  appends the return at its start, once when the message carries the marker and not
  at all when it does not; a \<open>Value\<close> message does not become the previous message,
  so the iteration after it appends the return again. On an input without \<open>Value\<close>
  messages there are as many such returns as markers on messages other than the
  last one. For one \<open>Call\<close>
  followed only by \<open>Delegatecall\<close>s, the first of them from the call's destination
  and the last message not carrying \<open>delegatedCall.last\<close>, the loop ends with the
  call as the only frame, there is one activation with a push, one close of a frame
  (at the drain, by the close rule on the call), and one return from a delegated
  lifeline for each message that carries \<open>delegatedCall.last\<close>.
\<close>

theorem delegate_non_interference:
  fixes s :: state
  shows "(type_m (store s ! i) = Delegatecall \<and> step options s i = Inr s' \<longrightarrow>
            contractCallStack s' =
              fst (returnDetection (store s) (contractCallStack s) (previousMessage s) (store s ! i))
            \<and> length (contractCallStack s') \<le> length (contractCallStack s)
            \<and> (\<not> walkFires s i \<longrightarrow> contractCallStack s' = contractCallStack s)
            \<and> store s' = store s
            \<and> previousMessage s' = Some i
            \<and> (\<exists>ftext. genFunctionText (store s ! i) (params options) = Inr ftext
                  \<and> plantUml s' = plantUml s
                      @ snd (returnDetection (store s) (contractCallStack s) (previousMessage s)
                               (store s ! i))
                      @ delegateCloseout (store s) (previousMessage s)
                      @ [CallArrow (participantId (from_m (store s ! i))) (genArrow (store s ! i))
                           (participantId (to_m (store s ! i))) ftext
                           (genGasUsage (store s ! i) (gas options)),
                         ActivateDelegate (participantId (to_m (store s ! i)))])
            \<and> (delegatedCall (store s ! i) \<noteq> None \<longrightarrow>
                  genArrow (store s ! i) = ''-['' @ DelegateMessageColor @ '']>''))
     \<and> (step options s i = Inr s' \<longrightarrow>
           (\<exists>disp. plantUml s' = plantUml s
                @ snd (returnDetection (store s) (contractCallStack s) (previousMessage s)
                         (store s ! i))
                @ (case previousMessage s of None \<Rightarrow> []
                   | Some p \<Rightarrow> if isLast (store s ! p) then [DelegateReturn] else [])
                @ disp
              \<and> filter isDelegateReturn disp = [])
           \<and> filter isDelegateReturn
                (snd (returnDetection (store s) (contractCallStack s) (previousMessage s)
                        (store s ! i))) = []
           \<and> length (filter isDelegateReturn (plantUml s'))
               = length (filter isDelegateReturn (plantUml s))
                 + (case previousMessage s of None \<Rightarrow> 0
                    | Some p \<Rightarrow> if isLast (store s ! p) then 1 else 0))
     \<and> (type_m (store s ! i) \<noteq> Value \<and> step options s i = Inr s'
          \<and> step options s' j = Inr s'' \<longrightarrow>
           (\<exists>disp. plantUml s'' = plantUml s'
                @ snd (returnDetection (store s') (contractCallStack s') (Some i) (store s' ! j))
                @ (if isLast (store s ! i) then [DelegateReturn] else [])
                @ disp
              \<and> filter isDelegateReturn disp = [])
           \<and> length (filter isDelegateReturn (plantUml s''))
               = length (filter isDelegateReturn (plantUml s'))
                 + (if isLast (store s ! i) then 1 else 0))
     \<and> ((\<forall>m \<in> set messages. type_m m \<noteq> Value) \<and> genLines messages options = Inr ms \<longrightarrow>
           length (filter isDelegateReturn ms) = length (filter isLast (butlast messages)))
     \<and> (type_m c = Call \<and> (\<forall>d \<in> set ds. type_m d = Delegatecall)
          \<and> (ds \<noteq> [] \<longrightarrow> from_m (hd ds) = to_m c)
          \<and> \<not> isLast (last (c # ds))
          \<and> genLines (c # ds) options = Inr ls \<longrightarrow>
            (\<exists>t. run (c # ds) options = Inr t \<and> contractCallStack t = [0]
                 \<and> ls = plantUml t @ genEndLifeline c)
            \<and> length (filter isFrameActivation ls) = 1
            \<and> length (filter isFrameClose ls) = 1
            \<and> length (filter isDelegateReturn ls) = length (filter isLast (c # ds)))"
proof (intro conjI impI)
  assume a: "type_m (store s ! i) = Delegatecall \<and> step options s i = Inr s'"
  then show "contractCallStack s' =
              fst (returnDetection (store s) (contractCallStack s) (previousMessage s) (store s ! i))"
    using delegatecall_stack(1) by blast
  from a show "length (contractCallStack s') \<le> length (contractCallStack s)"
    using delegatecall_stack(2) by blast
  from a show "store s' = store s"
    using delegatecall_lines(1) by blast
  from a show "previousMessage s' = Some i"
    using delegatecall_lines(2) by blast
  from a show "\<exists>ftext. genFunctionText (store s ! i) (params options) = Inr ftext
                  \<and> plantUml s' = plantUml s
                      @ snd (returnDetection (store s) (contractCallStack s) (previousMessage s)
                               (store s ! i))
                      @ delegateCloseout (store s) (previousMessage s)
                      @ [CallArrow (participantId (from_m (store s ! i))) (genArrow (store s ! i))
                           (participantId (to_m (store s ! i))) ftext
                           (genGasUsage (store s ! i) (gas options)),
                         ActivateDelegate (participantId (to_m (store s ! i)))]"
    using delegatecall_lines(3) by blast
  assume "\<not> walkFires s i"
  with a show "contractCallStack s' = contractCallStack s"
    using delegatecall_stack(3) by blast
next
  assume "type_m (store s ! i) = Delegatecall \<and> step options s i = Inr s'"
    and "delegatedCall (store s ! i) \<noteq> None"
  then show "genArrow (store s ! i) = ''-['' @ DelegateMessageColor @ '']>''"
    using delegate_arrow by blast
next
  assume st: "step options s i = Inr s'"
  then show "\<exists>disp. plantUml s' = plantUml s
                @ snd (returnDetection (store s) (contractCallStack s) (previousMessage s)
                         (store s ! i))
                @ (case previousMessage s of None \<Rightarrow> []
                   | Some p \<Rightarrow> if isLast (store s ! p) then [DelegateReturn] else [])
                @ disp
              \<and> filter isDelegateReturn disp = []"
    by (rule delegate_return_of_step)
  from walk_other_counts [of s i]
  show "filter isDelegateReturn
                (snd (returnDetection (store s) (contractCallStack s) (previousMessage s)
                        (store s ! i))) = []"
    by simp
  from st show "length (filter isDelegateReturn (plantUml s'))
               = length (filter isDelegateReturn (plantUml s))
                 + (case previousMessage s of None \<Rightarrow> 0
                    | Some p \<Rightarrow> if isLast (store s ! p) then 1 else 0)"
    by (rule count_delegate_returns_step)
next
  assume a: "type_m (store s ! i) \<noteq> Value \<and> step options s i = Inr s'
          \<and> step options s' j = Inr s''"
  then show "\<exists>disp. plantUml s'' = plantUml s'
                @ snd (returnDetection (store s') (contractCallStack s') (Some i) (store s' ! j))
                @ (if isLast (store s ! i) then [DelegateReturn] else [])
                @ disp
              \<and> filter isDelegateReturn disp = []"
    using delegate_return_next by blast
  from a have ty: "type_m (store s ! i) \<noteq> Value" and st: "step options s i = Inr s'"
    by blast+
  from step_store [OF st] ty have s: "store s' = store s" by simp
  from step_prev [OF st] ty have p: "previousMessage s' = Some i" by simp
  from a have "step options s' j = Inr s''" by blast
  from count_delegate_returns_step [OF this]
  show "length (filter isDelegateReturn (plantUml s''))
               = length (filter isDelegateReturn (plantUml s'))
                 + (if isLast (store s ! i) then 1 else 0)"
    by (simp add: p s)
next
  assume a: "(\<forall>m \<in> set messages. type_m m \<noteq> Value) \<and> genLines messages options = Inr ms"
  then obtain t where r: "run messages options = Inr t" and ms: "ms = plantUml t @ drain t"
    by (auto simp: genLines_def split: sum.splits)
  from a have nv: "\<forall>m \<in> set messages. type_m m \<noteq> Value" by blast
  have "filter isDelegateReturn (drain t) = []"
    by (simp add: drain_def frames_other_counts)
  with markers_run [OF nv r]
  show "length (filter isDelegateReturn ms) = length (filter isLast (butlast messages))"
    by (simp add: ms)
next
  assume b: "type_m c = Call \<and> (\<forall>d \<in> set ds. type_m d = Delegatecall)
          \<and> (ds \<noteq> [] \<longrightarrow> from_m (hd ds) = to_m c)
          \<and> \<not> isLast (last (c # ds))
          \<and> genLines (c # ds) options = Inr ls"
  then obtain t where r: "run (c # ds) options = Inr t" and ls: "ls = plantUml t @ drain t"
    by (auto simp: genLines_def split: sum.splits)
  from b r have "delegateRun c ds (Suc (length ds)) t" by (intro delegateRun_final) simp_all
  then have t: "store t = c # ds" "contractCallStack t = [0]"
    "filter isFrameClose (plantUml t) = []" "length (filter isFrameActivation (plantUml t)) = 1"
    "length (filter isDelegateReturn (plantUml t)) = length (filter isLast (take (length ds) (c # ds)))"
    by (simp_all add: delegateRun_def)
  from t have dr: "drain t = genEndLifeline c" by (simp add: drain_def)
  have gl: "length (filter isFrameClose (genEndLifeline c)) = 1"
    "filter isFrameActivation (genEndLifeline c) = []"
    "filter isDelegateReturn (genEndLifeline c) = []"
    by (auto simp: genEndLifeline_def split: option.splits)
  have bl: "take (length ds) (c # ds) = butlast (c # ds)"
    by (simp add: butlast_conv_take del: take_Suc_Cons butlast.simps)
  from b have "\<not> isLast (last (c # ds))" by blast
  then have fl: "filter isLast (butlast (c # ds)) = filter isLast (c # ds)"
    by (intro filter_butlast) simp_all
  show "\<exists>t. run (c # ds) options = Inr t \<and> contractCallStack t = [0]
                 \<and> ls = plantUml t @ genEndLifeline c"
    using r t ls dr by auto
  show "length (filter isFrameActivation ls) = 1" using t gl by (simp add: ls dr)
  show "length (filter isFrameClose ls) = 1" using t gl by (simp add: ls dr)
  show "length (filter isDelegateReturn ls) = length (filter isLast (c # ds))"
    using t(5) gl unfolding bl fl by (simp add: ls dr)
qed

theorem delegate_non_interference_witness:
  "loop noOptions (init c4_messages) [0] = Inr c4_state1
   \<and> type_m (store c4_state1 ! 1) = Delegatecall
   \<and> step noOptions c4_state1 1 = Inr c4_state2
   \<and> contractCallStack c4_state2 = contractCallStack c4_state1
   \<and> step noOptions c4_state2 2 = Inr c4_state3
   \<and> isLast (store c4_state1 ! 1)
   \<and> length (filter isDelegateReturn (plantUml c4_state2)) = 0
   \<and> length (filter isDelegateReturn (plantUml c4_state3)) = 1
   \<and> genLines c4_messages noOptions = Inr c4_lines
   \<and> length (filter isFrameActivation c4_lines) = 1
   \<and> length (filter isFrameClose c4_lines) = 1
   \<and> length (filter isDelegateReturn c4_lines) = 1
   \<and> map isLast c4_messages = [False, True, False]
   \<and> map type_m c4_messages = [Call, Delegatecall, Delegatecall]"
proof -
  have l: "loop noOptions (init c4_messages) [0] = Inr c4_state1"
    by (simp add: init_def c4_messages_def c4_state1_def step_eval)
  have ty: "type_m (store c4_state1 ! 1) = Delegatecall"
    by (simp add: c4_state1_def c4_messages_def)
  have st: "step noOptions c4_state1 1 = Inr c4_state2"
    by (simp add: c4_messages_def c4_state1_def c4_state2_def step_eval)
  have st': "step noOptions c4_state2 2 = Inr c4_state3"
    by (simp add: c4_messages_def c4_state2_def c4_state3_def step_eval)
  have la: "isLast (store c4_state1 ! 1)"
    by (simp add: c4_state1_def c4_messages_def isLast_def)
  have z: "length (filter isDelegateReturn (plantUml c4_state2)) = 0"
    by (simp add: c4_state2_def)
  have nf: "\<not> walkFires c4_state1 1"
    by (simp add: walkFires_def c4_state1_def c4_messages_def)
  have g: "genLines (hd c4_messages # tl c4_messages) noOptions = Inr c4_lines"
    by (simp add: genLines_def run_def init_def drain_def c4_messages_def c4_lines_def upt_rec
        step_eval)
  have h: "type_m (hd c4_messages) = Call \<and> (\<forall>d \<in> set (tl c4_messages). type_m d = Delegatecall)
          \<and> (tl c4_messages \<noteq> [] \<longrightarrow> from_m (hd (tl c4_messages)) = to_m (hd c4_messages))
          \<and> \<not> isLast (last (hd c4_messages # tl c4_messages))"
    by (simp add: c4_messages_def isLast_def)
  have m: "map isLast c4_messages = [False, True, False]"
    by (simp add: c4_messages_def isLast_def)
  have tys: "map type_m c4_messages = [Call, Delegatecall, Delegatecall]"
    by (simp add: c4_messages_def)
  have e: "hd c4_messages # tl c4_messages = c4_messages" by (simp add: c4_messages_def)
  note inst = delegate_non_interference [where s = c4_state1 and i = 1 and s' = c4_state2
      and j = 2 and s'' = c4_state3
      and c = "hd c4_messages" and ds = "tl c4_messages" and options = noOptions and ls = c4_lines
      and messages = c4_messages and ms = c4_lines]
  from inst ty st nf have k: "contractCallStack c4_state2 = contractCallStack c4_state1"
    by blast
  from inst ty st st'
  have "length (filter isDelegateReturn (plantUml c4_state3))
               = length (filter isDelegateReturn (plantUml c4_state2))
                 + (if isLast (store c4_state1 ! 1) then 1 else 0)"
    by simp
  with la z have o: "length (filter isDelegateReturn (plantUml c4_state3)) = 1"
    by simp
  from inst g h
  have "length (filter isFrameActivation c4_lines) = 1
     \<and> length (filter isFrameClose c4_lines) = 1
     \<and> length (filter isDelegateReturn c4_lines)
         = length (filter isLast (hd c4_messages # tl c4_messages))"
    by blast
  moreover have "length (filter isLast (hd c4_messages # tl c4_messages)) = 1"
    by (simp add: c4_messages_def isLast_def)
  ultimately show ?thesis using l ty st st' la z o k g m tys e by simp
qed

text \<open>
  A \<open>Delegatecall\<close> from A after a call from A to B: its iteration takes the stack
  from one frame to none. A sequence of one \<open>Delegatecall\<close> that carries
  \<open>delegatedCall.last\<close>: no return from the delegated lifeline is emitted for it.
  And a \<open>Value\<close> message after a \<open>Delegatecall\<close> that carries the marker: the return
  is emitted twice for the one marker, in the iteration of the \<open>Value\<close> message and
  in that of the call after it.
\<close>

theorem delegate_non_interference_counterexample:
  "loop noOptions (init c4_returning) [0] = Inr c4_returning1
   \<and> type_m (store c4_returning1 ! 1) = Delegatecall
   \<and> step noOptions c4_returning1 1 = Inr c4_returning2
   \<and> length (contractCallStack c4_returning1) = 1
   \<and> length (contractCallStack c4_returning2) = 0
   \<and> map isLast c4_delegate_only = [True]
   \<and> genLines c4_delegate_only noOptions =
     Inr [CallArrow ''AAAAaaaa'' ''-[#3471CD]>'' ''BBBBbbbb'' '''' '''', ActivateDelegate ''BBBBbbbb'']
   \<and> filter isDelegateReturn
       [CallArrow ''AAAAaaaa'' ''-[#3471CD]>'' ''BBBBbbbb'' '''' '''', ActivateDelegate ''BBBBbbbb''] = []
   \<and> map isLast c4_transfer_after_last = [False, True, False, False]
   \<and> genLines c4_transfer_after_last noOptions = Inr c4_transfer_lines
   \<and> length (filter isDelegateReturn c4_transfer_lines) = 2"
  by (simp add: genLines_def run_def init_def drain_def c4_delegate_only_def upt_rec step_eval
      isLast_def c4_returning_def c4_returning1_def c4_returning2_def
      c4_transfer_after_last_def c4_transfer_lines_def)

section \<open>Value transfers\<close>

lemma shiftAfter_inj [simp]: "shiftAfter k a = shiftAfter k b \<longleftrightarrow> a = b"
  by (auto simp: shiftAfter_def)

lemma unwind_sim:
  assumes "\<forall>c \<in> set rs. st2 ! shiftAfter k c = st1 ! c"
  shows "unwind st2 f (map (shiftAfter k) rs) (map (shiftAfter k) stk)
         = (map (shiftAfter k) (fst (unwind st1 f rs stk)), snd (unwind st1 f rs stk))"
  using assms
proof (induction rs arbitrary: stk)
  case Nil
  show ?case by simp
next
  case (Cons c cs)
  from Cons.prems have c: "st2 ! shiftAfter k c = st1 ! c"
    and cs: "\<forall>c \<in> set cs. st2 ! shiftAfter k c = st1 ! c" by simp_all
  from Cons.IH [OF cs, of "butlast stk"] show ?case
    by (simp add: c map_butlast split: prod.splits)
qed

lemma returnDetection_sim:
  assumes "\<forall>c \<in> set stk. st2 ! shiftAfter k c = st1 ! c"
    and "\<forall>p. prev = Some p \<longrightarrow> st2 ! shiftAfter k p = st1 ! p"
  shows "returnDetection st2 (map (shiftAfter k) stk) (map_option (shiftAfter k) prev) m
         = (map (shiftAfter k) (fst (returnDetection st1 stk prev m)),
            snd (returnDetection st1 stk prev m))"
proof (cases prev)
  case None
  then show ?thesis by (simp add: returnDetection_def)
next
  case (Some p)
  with assms(2) have p: "st2 ! shiftAfter k p = st1 ! p" by simp
  from assms(1) have "\<forall>c \<in> set (rev stk). st2 ! shiftAfter k c = st1 ! c" by simp
  from unwind_sim [OF this, of "from_m m" stk] Some p show ?thesis
    by (simp add: returnDetection_def rev_map)
qed

lemma delegateCloseout_sim:
  assumes "\<forall>p. prev = Some p \<longrightarrow> st2 ! shiftAfter k p = st1 ! p"
  shows "delegateCloseout st2 (map_option (shiftAfter k) prev) = delegateCloseout st1 prev"
  using assms by (cases prev) (simp_all add: delegateCloseout_def)

lemma walk_subset:
  "set (fst (returnDetection st stk prev m)) \<subseteq> set stk"
proof -
  have "set (fst (unwind st f (rev stk) stk)) \<subseteq> set stk" for f
    by (simp add: unwind_closedFrames set_take_subset)
  then show ?thesis
    by (simp add: returnDetection_def split: option.splits)
qed
lemma shiftAfter_bound: "j < n \<Longrightarrow> shiftAfter k j < Suc n"
  by (simp add: shiftAfter_def)

lemma step_sim:
  assumes sim: "sim k n s1 s2" and i: "i < n"
  shows "simResult k n (step options s1 i) (step options s2 (shiftAfter k i))"
proof -
  let ?w = "returnDetection (store s1) (contractCallStack s1) (previousMessage s1) (store s1 ! i)"
  from sim have len: "length (store s1) = n" "length (store s2) = Suc n"
    and st: "\<forall>j < n. store s2 ! shiftAfter k j = store s1 ! j"
    and stk: "contractCallStack s2 = map (shiftAfter k) (contractCallStack s1)"
    and prev: "previousMessage s2 = map_option (shiftAfter k) (previousMessage s1)"
    and sb: "\<forall>c \<in> set (contractCallStack s1). c < n"
    and pb: "\<forall>p. previousMessage s1 = Some p \<longrightarrow> p < n"
    and out: "filter (\<lambda>l. \<not> isValueArrow l) (plantUml s2) = filter (\<lambda>l. \<not> isValueArrow l) (plantUml s1)"
    by (simp_all add: sim_def)
  from st i have m: "store s2 ! shiftAfter k i = store s1 ! i" by simp
  from st sb have fs: "\<forall>c \<in> set (contractCallStack s1). store s2 ! shiftAfter k c = store s1 ! c"
    by simp
  from st pb have ps: "\<forall>p. previousMessage s1 = Some p \<longrightarrow> store s2 ! shiftAfter k p = store s1 ! p"
    by simp
  have rd: "returnDetection (store s2) (contractCallStack s2)
              (map_option (shiftAfter k) (previousMessage s1)) (store s1 ! i)
            = (map (shiftAfter k) (fst ?w), snd ?w)"
    unfolding stk by (rule returnDetection_sim [OF fs ps])
  have dc: "delegateCloseout (store s2) (map_option (shiftAfter k) (previousMessage s1))
              = delegateCloseout (store s1) (previousMessage s1)"
    by (rule delegateCloseout_sim [OF ps])
  from walk_subset [of "store s1" "contractCallStack s1" "previousMessage s1" "store s1 ! i"] sb
  have wb: "\<forall>c \<in> set (fst ?w). c < n" by blast
  then have bb: "\<forall>c \<in> set (butlast (fst ?w)). c < n" by (meson in_set_butlastD)
  have upd: "\<forall>j < n. (store s2)[shiftAfter k p := x] ! shiftAfter k j = (store s1)[p := x] ! j"
    if "p < n" for p x
    using that st len by (simp add: nth_list_update shiftAfter_bound)
  consider (call) "type_m (store s1 ! i) = Call \<or> type_m (store s1 ! i) = Create
                   \<or> type_m (store s1 ! i) = Delegatecall"
    | (val) "type_m (store s1 ! i) = Value"
    | (self) "type_m (store s1 ! i) = Selfdestruct"
    | (other) "type_m (store s1 ! i) \<notin> {Value, Call, Create, Selfdestruct, Delegatecall}"
    by auto
  then show ?thesis
  proof cases
    case call
    then show ?thesis
      using len st prev pb out wb i
      by (auto simp: simResult_def sim_def step_def Let_def m rd dc split: sum.splits)
  next
    case val
    let ?st1 = "case previousMessage s1 of None \<Rightarrow> store s1
                | Some p \<Rightarrow> (store s1)[p := (store s1 ! p)\<lparr>to_m := from_m (store s1 ! i)\<rparr>]"
    let ?st2 = "case map_option (shiftAfter k) (previousMessage s1) of None \<Rightarrow> store s2
                | Some p \<Rightarrow> (store s2)[p := (store s2 ! p)\<lparr>to_m := from_m (store s1 ! i)\<rparr>]"
    have u: "length ?st1 = n" "length ?st2 = Suc n" "\<forall>j < n. ?st2 ! shiftAfter k j = ?st1 ! j"
    proof -
      show "length ?st1 = n" using len by (simp split: option.splits)
      show "length ?st2 = Suc n" using len by (simp split: option.splits)
      show "\<forall>j < n. ?st2 ! shiftAfter k j = ?st1 ! j"
      proof (cases "previousMessage s1")
        case None
        with st show ?thesis by simp
      next
        case (Some p)
        with pb have p: "p < n" by simp
        with st have "store s2 ! shiftAfter k p = store s1 ! p" by simp
        with upd [OF p] Some show ?thesis by simp
      qed
    qed
    from val show ?thesis
      using u prev pb out wb i
      by (simp add: simResult_def sim_def step_def Let_def m rd dc)
  next
    case self
    then show ?thesis
      using len st prev pb out bb i
      by (simp add: simResult_def sim_def step_def Let_def m rd dc map_butlast)
  next
    case other
    then show ?thesis
      using len st prev pb out wb i
      by (simp add: simResult_def sim_def step_def Let_def m rd dc)
  qed
qed

lemma loop_sim:
  assumes "sim k n s1 s2" and "\<forall>i \<in> set is. i < n"
  shows "simResult k n (loop options s1 is) (loop options s2 (map (shiftAfter k) is))"
  using assms
proof (induction "is" arbitrary: s1 s2)
  case Nil
  then show ?case by (simp add: simResult_def)
next
  case (Cons i rest)
  from Cons.prems have i: "i < n" and rest: "\<forall>i \<in> set rest. i < n" by simp_all
  from step_sim [OF Cons.prems(1) i, of options] show ?case
  proof (cases "step options s1 i")
    case (Inl e)
    with step_sim [OF Cons.prems(1) i, of options] show ?thesis by (simp add: simResult_def)
  next
    case (Inr t1)
    with step_sim [OF Cons.prems(1) i, of options] obtain t2
      where t2: "step options s2 (shiftAfter k i) = Inr t2" and s: "sim k n t1 t2"
      by (auto simp: simResult_def)
    from Cons.IH [OF s rest] Inr t2 show ?thesis by simp
  qed
qed

lemma loop_prefix_loopInv:
  assumes "loop options (init messages) [0..<b] = Inr s" and "b \<le> length messages"
  shows "loopInv messages b s"
proof (rule loop_upt_induct [OF assms(1),
      where P = "\<lambda>i t. i \<le> length messages \<and> loopInv messages i t", THEN conjunct2])
  show "0 \<le> b" by simp
  show "0 \<le> length messages \<and> loopInv messages 0 (init messages)" by (simp add: loopInv_init)
  fix i t t'
  assume "i < b" "i \<le> length messages \<and> loopInv messages i t" "step options t i = Inr t'"
  with assms(2) show "Suc i \<le> length messages \<and> loopInv messages (Suc i) t'"
    using loopInv_step [of messages i t options t'] by simp
qed

lemma value_step_transparent:
  fixes t :: state
  assumes "type_m (store t ! i) = Value" and "previousMessage t = Some p"
    and "to_m (store t ! p) = from_m (store t ! i)"
  shows "step options t i =
           Inr (t\<lparr>plantUml := plantUml t @ delegateCloseout (store t) (previousMessage t)
                  @ [ValueArrow (participantId (from_m (store t ! i))) (genArrow (store t ! i))
                       (participantId (to_m (store t ! i))) (ethersText (store t ! i))
                       (genGasUsage (store t ! i) (gas options))]\<rparr>)"
proof -
  from assms have w: "returnDetection (store t) (contractCallStack t) (Some p) (store t ! i)
      = (contractCallStack t, [])"
    by (simp add: returnDetection_def)
  from assms(3) have "(store t ! p)\<lparr>to_m := from_m (store t ! i)\<rparr> = store t ! p"
    by simp
  then have u: "(store t)[p := (store t ! p)\<lparr>to_m := from_m (store t ! i)\<rparr>] = store t"
    by simp
  from assms(1,2) show ?thesis
    by (simp add: step_def Let_def w u)
qed

lemma sim_init:
  "sim (length xs) (length (xs @ c1 # rest)) (init (xs @ c1 # rest)) (init (xs @ c1 # v # rest))"
proof -
  have "(xs @ c1 # v # rest) ! shiftAfter (length xs) j = (xs @ c1 # rest) ! j"
    if "j < length (xs @ c1 # rest)" for j
  proof (cases "j \<le> length xs")
    case True
    then show ?thesis by (cases "j = length xs") (simp_all add: shiftAfter_def nth_append)
  next
    case False
    then have "length xs < j" by simp
    then obtain d where "j = Suc (length xs + d)" by (auto simp: less_iff_Suc_add)
    then show ?thesis by (simp add: shiftAfter_def nth_append)
  qed
  then show ?thesis by (simp add: sim_def init_def)
qed
lemma upt_split_at:
  assumes "k < n"
  shows "[0..<n] = [0..<k] @ [k] @ [Suc k..<n]"
proof -
  have "[0..<k + (n - k)] = [0..<k] @ [k..<k + (n - k)]" by (rule upt_add_eq_append) simp
  with assms have "[0..<n] = [0..<k] @ [k..<n]" by simp
  moreover from assms have "[k..<n] = k # [Suc k..<n]" by (rule upt_conv_Cons)
  ultimately show ?thesis by simp
qed

lemma upt_split_shifted:
  assumes "k < n"
  shows "[0..<Suc n] = map (shiftAfter k) [0..<k] @ [shiftAfter k k] @ [Suc k]
                         @ map (shiftAfter k) [Suc k..<n]"
proof -
  have a: "map (shiftAfter k) [0..<k] = [0..<k]"
    by (rule map_idI) (simp add: shiftAfter_def)
  have "map (shiftAfter k) [Suc k..<n] = map Suc [Suc k..<n]"
    by (rule map_cong) (simp_all add: shiftAfter_def)
  then have b: "map (shiftAfter k) [Suc k..<n] = [Suc (Suc k)..<Suc n]"
    by (simp add: map_Suc_upt)
  have c: "shiftAfter k k = k" by (simp add: shiftAfter_def)
  from assms have "[0..<Suc n] = [0..<k] @ [k] @ [Suc k..<Suc n]"
    by (intro upt_split_at) simp
  moreover from assms have "[Suc k..<Suc n] = Suc k # [Suc (Suc k)..<Suc n]"
    by (intro upt_conv_Cons) simp
  ultimately show ?thesis by (simp add: a b c)
qed

lemma transfer_sim:
  assumes c1: "type_m c1 = Call" and v: "type_m v = Value"
    and fv: "from_m v = to_m c1" and nl: "\<not> isLast c1"
  shows "simResult (length xs) (length (xs @ c1 # rest))
           (run (xs @ c1 # rest) options) (run (xs @ c1 # v # rest) options)"
proof -
  let ?k = "length xs"
  let ?m1 = "xs @ c1 # rest"
  let ?m2 = "xs @ c1 # v # rest"
  let ?n = "length ?m1"
  let ?f = "shiftAfter ?k"
  have kn: "?k < ?n" by simp
  have n2: "length ?m2 = Suc ?n" by simp
  have r1: "run ?m1 options = loop options (init ?m1) ([0..<?k] @ [?k] @ [Suc ?k..<?n])"
    unfolding run_def using upt_split_at [OF kn] by simp
  have r2: "run ?m2 options = loop options (init ?m2)
      (map ?f [0..<?k] @ [?f ?k] @ [Suc ?k] @ map ?f [Suc ?k..<?n])"
    unfolding run_def n2 using upt_split_shifted [OF kn] by simp
  have fk: "?f ?k = ?k" by (simp add: shiftAfter_def)
  have pre: "simResult ?k ?n (loop options (init ?m1) [0..<?k])
                             (loop options (init ?m2) (map ?f [0..<?k]))"
    by (rule loop_sim [OF sim_init]) simp
  show ?thesis
  proof (cases "loop options (init ?m1) [0..<?k]")
    case (Inl e)
    with pre have "loop options (init ?m2) (map ?f [0..<?k]) = Inl e" by (simp add: simResult_def)
    with Inl show ?thesis unfolding r1 r2 by (simp add: loop_append simResult_def)
  next
    case (Inr s1p)
    with pre obtain s2p where l2p: "loop options (init ?m2) (map ?f [0..<?k]) = Inr s2p"
      and simp: "sim ?k ?n s1p s2p" by (auto simp: simResult_def)
    from loop_prefix_loopInv [OF Inr] have "loopInv ?m1 ?k s1p" by simp
    then have "store s1p ! ?k = ?m1 ! ?k" by (simp add: loopInv_def storeShape_def)
    then have ck: "store s1p ! ?k = c1" by simp
    have stp: "simResult ?k ?n (step options s1p ?k) (step options s2p (?f ?k))"
      by (rule step_sim [OF simp kn])
    show ?thesis
    proof (cases "step options s1p ?k")
      case (Inl e)
      with stp have "step options s2p (?f ?k) = Inl e" by (simp add: simResult_def)
      with Inl Inr l2p show ?thesis unfolding r1 r2 by (simp add: loop_append simResult_def)
    next
      case (Inr s1a)
      with stp obtain s2a where st2: "step options s2p (?f ?k) = Inr s2a"
        and sima: "sim ?k ?n s1a s2a" by (auto simp: simResult_def)
      from Inr c1 ck have pa: "previousMessage s1a = Some ?k" and sa: "store s1a = store s1p"
        by (simp_all add: step_prev step_store)
      from sima pa have p2: "previousMessage s2a = Some ?k" by (simp add: sim_def fk)
      from sima kn have "store s2a ! ?f ?k = store s1a ! ?k" by (simp add: sim_def)
      with sa ck fk have c2k: "store s2a ! ?k = c1" by simp
      have "map ?f [0..<?k] = [0..<?k]" by (rule map_idI) (simp add: shiftAfter_def)
      with l2p st2 fk have "loop options (init ?m2) [0..<Suc ?k] = Inr s2a"
        by (simp add: loop_append)
      then have "loopInv ?m2 (Suc ?k) s2a" by (rule loop_prefix_loopInv) simp
      then have "store s2a ! Suc ?k = ?m2 ! Suc ?k" by (simp add: loopInv_def storeShape_def)
      then have vk: "store s2a ! Suc ?k = v" by (simp add: nth_append)
      have dcl: "delegateCloseout (store s2a) (previousMessage s2a) = []"
        using p2 c2k nl by (simp add: delegateCloseout_isLast)
      have "step options s2a (Suc ?k) =
           Inr (s2a\<lparr>plantUml := plantUml s2a @ delegateCloseout (store s2a) (previousMessage s2a)
                  @ [ValueArrow (participantId (from_m (store s2a ! Suc ?k))) (genArrow (store s2a ! Suc ?k))
                       (participantId (to_m (store s2a ! Suc ?k))) (ethersText (store s2a ! Suc ?k))
                       (genGasUsage (store s2a ! Suc ?k) (gas options))]\<rparr>)"
        by (rule value_step_transparent [where p = ?k]) (simp_all add: vk v p2 c2k fv)
      then obtain s2b where st3: "step options s2a (Suc ?k) = Inr s2b"
        and s2b: "s2b = s2a\<lparr>plantUml := plantUml s2a
                  @ [ValueArrow (participantId (from_m v)) (genArrow v)
                       (participantId (to_m v)) (ethersText v) (genGasUsage v (gas options))]\<rparr>"
        by (simp add: dcl vk)
      from sima have simb: "sim ?k ?n s1a s2b" by (simp add: sim_def s2b)
      have "simResult ?k ?n (loop options s1a [Suc ?k..<?n])
                            (loop options s2b (map ?f [Suc ?k..<?n]))"
        by (rule loop_sim [OF simb]) auto
      with \<open>loop options (init ?m1) [0..<?k] = Inr s1p\<close> Inr l2p st2 st3
      show ?thesis unfolding r1 r2 by (simp add: loop_append)
    qed
  qed
qed
lemma drain_sim:
  assumes "sim k n s1 s2"
  shows "drain s2 = drain s1"
proof -
  from assms have st: "\<forall>j < n. store s2 ! shiftAfter k j = store s1 ! j"
    and stk: "contractCallStack s2 = map (shiftAfter k) (contractCallStack s1)"
    and sb: "\<forall>c \<in> set (contractCallStack s1). c < n"
    by (simp_all add: sim_def)
  from st sb have "\<forall>c \<in> set (rev (contractCallStack s1)).
      genEndLifeline (store s2 ! shiftAfter k c) = genEndLifeline (store s1 ! c)"
    by simp
  then have "map (\<lambda>c. genEndLifeline (store s2 ! shiftAfter k c)) (rev (contractCallStack s1))
           = map (\<lambda>c. genEndLifeline (store s1 ! c)) (rev (contractCallStack s1))"
    by (intro map_cong) simp_all
  then have "concat (map (\<lambda>c. genEndLifeline (store s2 ! shiftAfter k c)) (rev (contractCallStack s1)))
           = concat (map (\<lambda>c. genEndLifeline (store s1 ! c)) (rev (contractCallStack s1)))"
    by (simp only:)
  then show ?thesis by (simp add: drain_def stk rev_map comp_def)
qed

lemma drain_no_value_arrow: "filter (\<lambda>l. \<not> isValueArrow l) (drain s) = drain s"
proof -
  have "\<forall>l \<in> set (genEndLifeline m). \<not> isValueArrow l" for m
    by (auto simp: genEndLifeline_def split: option.splits)
  then show ?thesis by (auto simp: drain_def)
qed

lemma genLines_sim:
  assumes "simResult k n (run m1 options) (run m2 options)"
  shows "map_sum id (filter (\<lambda>l. \<not> isValueArrow l)) (genLines m2 options)
         = map_sum id (filter (\<lambda>l. \<not> isValueArrow l)) (genLines m1 options)"
proof (cases "run m1 options")
  case (Inl e)
  with assms have "run m2 options = Inl e" by (simp add: simResult_def)
  with Inl show ?thesis by (simp add: genLines_def)
next
  case (Inr s1)
  with assms obtain s2 where r2: "run m2 options = Inr s2" and s: "sim k n s1 s2"
    by (auto simp: simResult_def)
  from s have "filter (\<lambda>l. \<not> isValueArrow l) (plantUml s2) = filter (\<lambda>l. \<not> isValueArrow l) (plantUml s1)"
    by (simp add: sim_def)
  with drain_sim [OF s] Inr r2 show ?thesis
    by (simp add: genLines_def drain_no_value_arrow)
qed

text \<open>
  C6 (as amended). A \<open>Value\<close> message whose \<open>from\<close> is the \<open>to\<close> of the previous
  message changes nothing but the lines: its iteration appends the value arrow
  (after the return from a delegated lifeline, if one is due), closes no frame, and
  leaves the stack, the previous message and the store as they were. So when such
  a message is inserted after a \<open>Call\<close> that does not carry \<open>delegatedCall.last\<close>,
  between it and the message that follows, \<open>genMessages\<close> fails exactly when it
  fails without the insertion, and otherwise gives the same lines, value arrows
  apart.
\<close>

theorem value_transfer_transparency:
  fixes t :: state
  shows "(type_m (store t ! i) = Value \<and> previousMessage t = Some p
          \<and> to_m (store t ! p) = from_m (store t ! i) \<longrightarrow>
            step options t i =
              Inr (t\<lparr>plantUml := plantUml t @ delegateCloseout (store t) (previousMessage t)
                     @ [ValueArrow (participantId (from_m (store t ! i))) (genArrow (store t ! i))
                          (participantId (to_m (store t ! i))) (ethersText (store t ! i))
                          (genGasUsage (store t ! i) (gas options))]\<rparr>))
     \<and> (type_m c = Call \<and> type_m v = Value \<and> from_m v = to_m c \<and> \<not> isLast c \<longrightarrow>
            map_sum id (filter (\<lambda>l. \<not> isValueArrow l)) (genLines (xs @ c # v # d # ys) options)
            = map_sum id (filter (\<lambda>l. \<not> isValueArrow l)) (genLines (xs @ c # d # ys) options))"
proof (intro conjI impI)
  assume "type_m (store t ! i) = Value \<and> previousMessage t = Some p
          \<and> to_m (store t ! p) = from_m (store t ! i)"
  then show "step options t i =
              Inr (t\<lparr>plantUml := plantUml t @ delegateCloseout (store t) (previousMessage t)
                     @ [ValueArrow (participantId (from_m (store t ! i))) (genArrow (store t ! i))
                          (participantId (to_m (store t ! i))) (ethersText (store t ! i))
                          (genGasUsage (store t ! i) (gas options))]\<rparr>)"
    by (intro value_step_transparent [where p = p]) simp_all
next
  assume "type_m c = Call \<and> type_m v = Value \<and> from_m v = to_m c \<and> \<not> isLast c"
  then have "simResult (length xs) (length (xs @ c # d # ys))
           (run (xs @ c # d # ys) options) (run (xs @ c # v # d # ys) options)"
    by (intro transfer_sim) simp_all
  then show "map_sum id (filter (\<lambda>l. \<not> isValueArrow l)) (genLines (xs @ c # v # d # ys) options)
            = map_sum id (filter (\<lambda>l. \<not> isValueArrow l)) (genLines (xs @ c # d # ys) options)"
    by (rule genLines_sim)
qed

theorem value_transfer_transparency_witness:
  "step noOptions c6_state 1 =
     Inr (c6_state\<lparr>plantUml := plantUml c6_state
            @ [ValueArrow ''BBBBbbbb'' ''->>'' ''CCCCcccc'' ''1.00'' '''']\<rparr>)
   \<and> genLines c6_with noOptions =
       Inr [CallArrow ''AAAAaaaa'' ''->'' ''BBBBbbbb'' '''' '''', Activate ''BBBBbbbb'',
            ValueArrow ''BBBBbbbb'' ''->>'' ''CCCCcccc'' ''1.00'' '''',
            CallArrow ''BBBBbbbb'' ''->'' ''DDDDdddd'' '''' '''', Activate ''DDDDdddd'',
            Return, Destroy ''BBBBbbbb'']
   \<and> genLines c6_without noOptions =
       Inr [CallArrow ''AAAAaaaa'' ''->'' ''BBBBbbbb'' '''' '''', Activate ''BBBBbbbb'',
            CallArrow ''BBBBbbbb'' ''->'' ''DDDDdddd'' '''' '''', Activate ''DDDDdddd'',
            Return, Destroy ''BBBBbbbb'']
   \<and> map_sum id (filter (\<lambda>l. \<not> isValueArrow l)) (genLines c6_with noOptions)
       = map_sum id (filter (\<lambda>l. \<not> isValueArrow l)) (genLines c6_without noOptions)"
proof -
  note inst = value_transfer_transparency [where t = c6_state and i = 1 and p = 0
      and options = noOptions and xs = "[]"
      and c = "exampleMessage Call addrA addrB False None None"
      and v = "exampleMessage Value addrB addrC True None None"
      and d = "exampleMessage Call addrB addrD True None None" and ys = "[]"]
  have h1: "type_m (store c6_state ! 1) = Value \<and> previousMessage c6_state = Some 0
          \<and> to_m (store c6_state ! 0) = from_m (store c6_state ! 1)"
    by (simp add: c6_state_def c6_with_def)
  have h2: "type_m (exampleMessage Call addrA addrB False None None) = Call
     \<and> type_m (exampleMessage Value addrB addrC True None None) = Value
     \<and> from_m (exampleMessage Value addrB addrC True None None)
         = to_m (exampleMessage Call addrA addrB False None None)
     \<and> \<not> isLast (exampleMessage Call addrA addrB False None None)"
    by (simp add: isLast_def)
  from inst h1 have a: "step noOptions c6_state 1 =
     Inr (c6_state\<lparr>plantUml := plantUml c6_state
            @ [ValueArrow ''BBBBbbbb'' ''->>'' ''CCCCcccc'' ''1.00'' '''']\<rparr>)"
    by (simp add: c6_state_def c6_with_def step_eval)
  from inst h2 have b: "map_sum id (filter (\<lambda>l. \<not> isValueArrow l)) (genLines c6_with noOptions)
       = map_sum id (filter (\<lambda>l. \<not> isValueArrow l)) (genLines c6_without noOptions)"
    by (simp add: c6_with_def c6_without_def)
  have c: "genLines c6_with noOptions =
       Inr [CallArrow ''AAAAaaaa'' ''->'' ''BBBBbbbb'' '''' '''', Activate ''BBBBbbbb'',
            ValueArrow ''BBBBbbbb'' ''->>'' ''CCCCcccc'' ''1.00'' '''',
            CallArrow ''BBBBbbbb'' ''->'' ''DDDDdddd'' '''' '''', Activate ''DDDDdddd'',
            Return, Destroy ''BBBBbbbb'']"
    by (simp add: genLines_def run_def init_def drain_def c6_with_def upt_rec step_eval)
  have d: "genLines c6_without noOptions =
       Inr [CallArrow ''AAAAaaaa'' ''->'' ''BBBBbbbb'' '''' '''', Activate ''BBBBbbbb'',
            CallArrow ''BBBBbbbb'' ''->'' ''DDDDdddd'' '''' '''', Activate ''DDDDdddd'',
            Return, Destroy ''BBBBbbbb'']"
    by (simp add: genLines_def run_def init_def drain_def c6_without_def upt_rec step_eval)
  from a b c d show ?thesis by (simp only: simp_thms)
qed

text \<open>
  A value transfer from A, put between a failed call from A to B and a call from B:
  the iteration for the transfer closes the frame of the first call, so the destroy
  comes first; without the transfer it comes last, at the drain.
\<close>

theorem value_transfer_transparency_counterexample:
  "genLines c6_with_from_caller noOptions =
       Inr [CallArrow ''AAAAaaaa'' ''->'' ''BBBBbbbb'' '''' '''', Activate ''BBBBbbbb'',
            Destroy ''BBBBbbbb'',
            ValueArrow ''AAAAaaaa'' ''->>'' ''CCCCcccc'' ''1.00'' '''',
            CallArrow ''BBBBbbbb'' ''->'' ''DDDDdddd'' '''' '''', Activate ''DDDDdddd'',
            Return]
   \<and> genLines c6_without noOptions =
       Inr [CallArrow ''AAAAaaaa'' ''->'' ''BBBBbbbb'' '''' '''', Activate ''BBBBbbbb'',
            CallArrow ''BBBBbbbb'' ''->'' ''DDDDdddd'' '''' '''', Activate ''DDDDdddd'',
            Return, Destroy ''BBBBbbbb'']
   \<and> map_sum id (filter isClose) (genLines c6_with_from_caller noOptions)
       \<noteq> map_sum id (filter isClose) (genLines c6_without noOptions)"
  by (simp add: genLines_def run_def init_def drain_def c6_with_from_caller_def c6_without_def
      upt_rec step_eval)

end
